theory Spec2Isabelle
  imports Complex_Main
begin

section \<open>Strings\<close>

text \<open>
  A JavaScript string is a sequence of UTF-16 code units; a code unit is modelled as a
  natural number. \<open>str\<close> turns an ASCII literal into its code units.  Characters outside
  ASCII are written by their code unit (\<open>227\<close> is a-tilde, \<open>243\<close> is o-acute).
\<close>

type_synonym jsstring = "nat list"

definition str :: "string \<Rightarrow> jsstring" where
  "str s = map of_char s"

text \<open>\<open>String.prototype.startsWith\<close> and \<open>String.prototype.includes\<close>.\<close>

fun starts_with :: "jsstring \<Rightarrow> jsstring \<Rightarrow> bool" where
  "starts_with s [] = True"
| "starts_with [] (p # ps) = False"
| "starts_with (c # cs) (p # ps) = (c = p \<and> starts_with cs ps)"

fun js_includes :: "jsstring \<Rightarrow> jsstring \<Rightarrow> bool" where
  "js_includes [] p = (p = [])"
| "js_includes (c # cs) p = (starts_with (c # cs) p \<or> js_includes cs p)"

text \<open>Decimal rendering of an integer, as a template literal renders an integral number.\<close>

fun dec :: "nat \<Rightarrow> jsstring" where
  "dec n = (if n < 10 then [48 + n] else dec (n div 10) @ [48 + n mod 10])"

definition show_int :: "int \<Rightarrow> jsstring" where
  "show_int i = (if i < 0 then 45 # dec (nat (- i)) else dec (nat i))"

section \<open>JavaScript values of JSON shape\<close>

text \<open>
  The values the worker and the classifier handle come out of \<open>JSON.parse\<close>: null,
  booleans, numbers, strings, arrays and objects.  Numbers are modelled as integers
  (the safe-integer range of a double); \<open>JNaN\<close> is the one non-JSON number the code can
  produce (\<open>parseInt\<close> of a non-numeral).  An object is the list of its own properties in
  enumeration order.  \<open>undefined\<close> is \<open>None\<close> of an option.
\<close>

datatype jsval =
    JNull
  | JBool bool
  | JNum int
  | JNaN
  | JStr jsstring
  | JArr "jsval list"
  | JObj "(jsstring \<times> jsval) list"

datatype js_error =
    Error jsstring
  | TypeError
  | SyntaxError
  | Rethrown jsstring js_error

text \<open>
  \<open>Error m\<close> is \<open>new Error(m)\<close>.  \<open>TypeError\<close> and \<open>SyntaxError\<close> are the errors the
  engine raises on a property read of null or undefined and on malformed JSON; their
  message is the engine's.  \<open>Rethrown p e\<close> is \<open>new Error(p + e.message)\<close>.
\<close>

section \<open>The requeue classifier\<close>

record requeue_info =
  original_job_id :: jsstring
  requeue_count :: int
  requeue_timestamp :: int
  original_failure_reason :: "jsstring option"

text \<open>
  The payload of a job (\<open>job.data\<close>).  \<open>requeue_timestamp\<close> above holds the instant whose
  ISO rendering the code stores.
\<close>

record job_data =
  workflow_name :: jsstring
  data_inputs :: "jsval option"
  user_id :: "jsstring option"
  data_timestamp :: jsstring
  data_priority :: "int option"
  requeue_info :: "requeue_info option"

text \<open>
  A job of the failed set.  \<open>data\<close> is \<open>None\<close> for a job whose payload is null or
  undefined: reading a property of it raises a TypeError.
\<close>

record job =
  job_id :: jsstring
  job_name :: jsstring
  data :: "job_data option"
  timestamp :: int
  failedReason :: "jsstring option"

text \<open>
  The options as they are read: every field of \<open>RequeueOptions\<close> is optional, and the
  read of a field gives its value or undefined (\<open>None\<close>).
\<close>

record RequeueOptions =
  maxAge :: "int option"
  maxRetries :: "int option"
  priorityBoost :: "bool option"
  delayBeforeRequeue :: "int option"

definition defaultOptions :: RequeueOptions where
  "defaultOptions =
     \<lparr> maxAge = Some (24 * 60 * 60 * 1000),
       maxRetries = Some 2,
       priorityBoost = Some True,
       delayBeforeRequeue = Some 30000 \<rparr>"

text \<open>
  The object a caller passes for \<open>options\<close>.  The object spread copies the own
  properties of an object, so a property that is present with the value undefined is
  told apart from an absent one: \<open>None\<close> is an absent property, \<open>Some None\<close> a property
  whose value is undefined.
\<close>

record passed_options =
  passed_maxAge :: "int option option"
  passed_maxRetries :: "int option option"
  passed_priorityBoost :: "bool option option"
  passed_delayBeforeRequeue :: "int option option"

text \<open>The object spread \<open>{ ...a, ...b }\<close>: a property present in \<open>b\<close> wins, whatever its value.\<close>

definition or_else :: "'a option \<Rightarrow> 'a \<Rightarrow> 'a" where
  "or_else b a = (case b of None \<Rightarrow> a | Some v \<Rightarrow> v)"

definition spread :: "RequeueOptions \<Rightarrow> passed_options \<Rightarrow> RequeueOptions" where
  "spread a b =
     \<lparr> maxAge = or_else (passed_maxAge b) (maxAge a),
       maxRetries = or_else (passed_maxRetries b) (maxRetries a),
       priorityBoost = or_else (passed_priorityBoost b) (priorityBoost a),
       delayBeforeRequeue = or_else (passed_delayBeforeRequeue b) (delayBeforeRequeue a) \<rparr>"

text \<open>A comparison of a number with \<open>undefined\<close> is false.\<close>

definition gt_num :: "int \<Rightarrow> int option \<Rightarrow> bool" where
  "gt_num x y = (case y of None \<Rightarrow> False | Some v \<Rightarrow> x > v)"

definition ge_num :: "int \<Rightarrow> int option \<Rightarrow> bool" where
  "ge_num x y = (case y of None \<Rightarrow> False | Some v \<Rightarrow> x \<ge> v)"

text \<open>
  The reason of a verdict.  Each constructor stands for one message of the source:
  \<open>TooOld h\<close> for "Job muito antigo (h h)", \<open>MaxRequeues n\<close> for "Maximo de
  re-enfileiramentos atingido (n)", \<open>TemporaryError s\<close> and \<open>PermanentError s\<close> for the
  two "detectado" messages with the first 100 code units of the failure reason,
  \<open>FirstUnknown\<close> and \<open>UnknownAgain n\<close> for the two unknown-error messages, and
  \<open>EvaluationError\<close> for the message of the catch block.
\<close>

datatype reason =
    TooOld int
  | MaxRequeues int
  | TemporaryError jsstring
  | PermanentError jsstring
  | FirstUnknown
  | UnknownAgain int
  | EvaluationError

record verdict =
  requeue :: bool
  reason :: reason

definition temporaryErrors :: "jsstring list" where
  "temporaryErrors =
     [ str ''timeout'',
       str ''connection'',
       str ''network'',
       str ''ECONNREFUSED'',
       str ''ENOTFOUND'',
       str ''ETIMEDOUT'',
       str ''ComfyUI API Error (5'',
       str ''Timeout waiting for ComfyUI'',
       str ''Erro ao consultar hist'' @ [243] @ str ''rico'' ]"

definition permanentErrors :: "jsstring list" where
  "permanentErrors =
     [ str ''Workflow n'' @ [227] @ str ''o encontrado'',
       str ''ComfyUI API Error (4'',
       str ''bad anatomy'',
       str ''invalid input'',
       str ''malformed'' ]"

text \<open>\<open>Math.round (jobAge / (60 * 60 * 1000))\<close>: the nearest integer, a half rounded up.\<close>

definition round_hours :: "int \<Rightarrow> int" where
  "round_hours jobAge = (2 * jobAge + 60 * 60 * 1000) div (2 * (60 * 60 * 1000))"

text \<open>
  \<open>shouldRequeueJob\<close>.  \<open>toLowerCase\<close> is the platform's \<open>String.prototype.toLowerCase\<close>
  and \<open>now\<close> the value \<open>Date.now()\<close> returns at the call.  The only statement of the try
  block that can raise is the read of \<open>job.data.requeue_info\<close> on a missing payload; the
  catch block turns it into a rejection.
\<close>

definition shouldRequeueJob ::
  "(jsstring \<Rightarrow> jsstring) \<Rightarrow> int \<Rightarrow> job \<Rightarrow> RequeueOptions \<Rightarrow> verdict" where
  "shouldRequeueJob toLowerCase now job options =
     (let jobAge = now - timestamp job in
      if gt_num jobAge (maxAge options)
      then \<lparr> requeue = False, reason = TooOld (round_hours jobAge) \<rparr>
      else
        case data job of
          None \<Rightarrow> \<lparr> requeue = False, reason = EvaluationError \<rparr>
        | Some d \<Rightarrow>
           (let requeueCount = (case requeue_info d of None \<Rightarrow> 0 | Some ri \<Rightarrow> requeue_count ri) in
            if ge_num requeueCount (maxRetries options)
            then \<lparr> requeue = False, reason = MaxRequeues requeueCount \<rparr>
            else
              let failureReason = (case failedReason job of None \<Rightarrow> [] | Some r \<Rightarrow> r);
                  isTemporaryError =
                    list_ex (\<lambda>e. js_includes (toLowerCase failureReason) (toLowerCase e))
                      temporaryErrors
              in
              if isTemporaryError
              then \<lparr> requeue = True, reason = TemporaryError (take 100 failureReason) \<rparr>
              else
                let isPermanentError =
                      list_ex (\<lambda>e. js_includes (toLowerCase failureReason) (toLowerCase e))
                        permanentErrors
                in
                if isPermanentError
                then \<lparr> requeue = False, reason = PermanentError (take 100 failureReason) \<rparr>
                else if requeueCount = 0
                then \<lparr> requeue = True, reason = FirstUnknown \<rparr>
                else \<lparr> requeue = False, reason = UnknownAgain requeueCount \<rparr>))"


section \<open>The sweep over the failed set\<close>

record job_options =
  jobId :: jsstring
  job_attempts :: int
  priority :: "int option"
  delay :: "int option"

text \<open>
  The queue as the sweep sees it: the failed set, and the jobs added by
  \<open>imageGenerationQueue.add (name, data, options)\<close>, oldest first.
\<close>

record queue_state =
  failed :: "job list"
  added :: "(jsstring \<times> job_data \<times> job_options) list"

text \<open>
  What the sweep cannot decide by itself: \<open>clock i\<close> is the instant the \<open>i\<close>-th reading
  of the clock returns (\<open>Date.now()\<close> and \<open>new Date()\<close>), \<open>getFailed_error\<close> the error
  \<open>getFailed\<close> raises if it does, and \<open>add_fails\<close> and \<open>remove_fails\<close> tell for which job
  identifier \<open>add\<close> and \<open>remove\<close> raise.
\<close>

record sweep_env =
  clock :: "nat \<Rightarrow> int"
  getFailed_error :: "js_error option"
  add_fails :: "jsstring \<Rightarrow> bool"
  remove_fails :: "jsstring \<Rightarrow> bool"

record sweep =
  reads :: nat
  queue :: queue_state
  requeuedCount :: nat
  skippedCount :: nat

record stats =
  total :: nat
  requeued :: nat
  skipped :: nat

definition newJobOptions :: "RequeueOptions \<Rightarrow> job \<Rightarrow> int \<Rightarrow> job_options" where
  "newJobOptions opts job now =
     \<lparr> jobId = str ''requeue-'' @ job_id job @ str ''-'' @ show_int now,
       job_attempts = 3,
       priority = (if priorityBoost opts = Some True then Some 1 else None),
       delay = (case delayBeforeRequeue opts of
                  None \<Rightarrow> None
                | Some d \<Rightarrow> if d \<noteq> 0 \<and> d > 0 then Some d else None) \<rparr>"

definition requeue_jobData :: "job \<Rightarrow> job_data \<Rightarrow> int \<Rightarrow> job_data" where
  "requeue_jobData job d now =
     d \<lparr> requeue_info := Some
          \<lparr> original_job_id = job_id job,
            requeue_count =
              (case requeue_info d of None \<Rightarrow> 0 | Some ri \<Rightarrow> requeue_count ri) + 1,
            requeue_timestamp = now,
            original_failure_reason = failedReason job \<rparr> \<rparr>"

definition skip :: "sweep \<Rightarrow> sweep" where
  "skip s = s \<lparr> skippedCount := skippedCount s + 1 \<rparr>"

text \<open>
  The body of the loop over the failed jobs.  An error raised by \<open>add\<close> or by \<open>remove\<close>
  (or by the read of a missing payload) reaches the catch block of the body, which
  counts the job as skipped.
\<close>

definition requeue_step ::
  "(jsstring \<Rightarrow> jsstring) \<Rightarrow> sweep_env \<Rightarrow> RequeueOptions \<Rightarrow> sweep \<Rightarrow> job \<Rightarrow> sweep" where
  "requeue_step toLowerCase env opts s job =
     (let shouldRequeue = shouldRequeueJob toLowerCase (clock env (reads s)) job opts;
          s1 = s \<lparr> reads := reads s + 1 \<rparr>
      in
      if requeue shouldRequeue then
        let options = newJobOptions opts job (clock env (reads s1));
            s2 = s1 \<lparr> reads := reads s1 + 1 \<rparr>
        in
        case data job of
          None \<Rightarrow> skip s2
        | Some d \<Rightarrow>
           (let payload = requeue_jobData job d (clock env (reads s2));
                s3 = s2 \<lparr> reads := reads s2 + 1 \<rparr>
            in
            if add_fails env (jobId options) then skip s3
            else
              let s4 = s3 \<lparr> queue := (queue s3)
                         \<lparr> added := added (queue s3) @ [(job_name job, payload, options)] \<rparr> \<rparr>
              in
              if remove_fails env (job_id job) then skip s4
              else s4 \<lparr> queue := (queue s4)
                         \<lparr> failed := filter (\<lambda>j. job_id j \<noteq> job_id job) (failed (queue s4)) \<rparr>,
                        requeuedCount := requeuedCount s4 + 1 \<rparr>)
      else skip s1)"

definition requeueFailedJobs ::
  "(jsstring \<Rightarrow> jsstring) \<Rightarrow> sweep_env \<Rightarrow> passed_options \<Rightarrow> queue_state
     \<Rightarrow> js_error + (stats \<times> queue_state)" where
  "requeueFailedJobs toLowerCase env options q =
     (let opts = spread defaultOptions options in
      case getFailed_error env of
        Some e \<Rightarrow> Inl e
      | None \<Rightarrow>
         (let failedJobs = failed q;
              s = foldl (requeue_step toLowerCase env opts)
                    \<lparr> reads = 0, queue = q, requeuedCount = 0, skippedCount = 0 \<rparr>
                    failedJobs
          in Inr (\<lparr> total = length failedJobs,
                     requeued = requeuedCount s,
                     skipped = skippedCount s \<rparr>, queue s)))"

subsection \<open>The decision order in the words of the specification\<close>

definition prior_count :: "job_data \<Rightarrow> int" where
  "prior_count d = (case requeue_info d of None \<Rightarrow> 0 | Some ri \<Rightarrow> requeue_count ri)"

definition reason_text :: "job \<Rightarrow> jsstring" where
  "reason_text job = (case failedReason job of None \<Rightarrow> [] | Some r \<Rightarrow> r)"

definition contains_any :: "(jsstring \<Rightarrow> jsstring) \<Rightarrow> jsstring \<Rightarrow> jsstring list \<Rightarrow> bool" where
  "contains_any toLowerCase text signals =
     (\<exists>p \<in> set signals. js_includes (toLowerCase text) (toLowerCase p))"

definition decision ::
  "(jsstring \<Rightarrow> jsstring) \<Rightarrow> int \<Rightarrow> int \<Rightarrow> int \<Rightarrow> int \<Rightarrow> jsstring \<Rightarrow> bool" where
  "decision toLowerCase age max_age count max_retries text =
     (if age > max_age then False
      else if count \<ge> max_retries then False
      else if contains_any toLowerCase text temporaryErrors then True
      else if contains_any toLowerCase text permanentErrors then False
      else count = 0)"

text \<open>Lower-casing of the letters A to Z, every other code unit kept.\<close>

definition lower_ascii :: "jsstring \<Rightarrow> jsstring" where
  "lower_ascii s = map (\<lambda>c. if 65 \<le> c \<and> c \<le> 90 then c + 32 else c) s"

section \<open>Operations on JavaScript values\<close>

text \<open>
  Only own data properties are modelled: the members a value inherits from its prototype
  (methods) are not JSON data and none of the property names the program reads is one.
\<close>

fun truthy :: "jsval \<Rightarrow> bool" where
  "truthy JNull = False"
| "truthy (JBool b) = b"
| "truthy (JNum n) = (n \<noteq> 0)"
| "truthy JNaN = False"
| "truthy (JStr s) = (s \<noteq> [])"
| "truthy (JArr xs) = True"
| "truthy (JObj kvs) = True"

definition truthy_opt :: "jsval option \<Rightarrow> bool" where
  "truthy_opt v = (case v of None \<Rightarrow> False | Some x \<Rightarrow> truthy x)"

text \<open>\<open>a || b\<close>, where the evaluation of \<open>b\<close> may raise.\<close>

definition or_js :: "jsval option \<Rightarrow> (js_error + jsval option) \<Rightarrow> js_error + jsval option" where
  "or_js a b = (if truthy_opt a then Inr a else b)"

definition and_then :: "(js_error + 'a) \<Rightarrow> ('a \<Rightarrow> js_error + 'b) \<Rightarrow> js_error + 'b" where
  "and_then r f = (case r of Inl e \<Rightarrow> Inl e | Inr v \<Rightarrow> f v)"

text \<open>A property name that is an array index: a decimal numeral without leading zero.\<close>

definition is_digit :: "nat \<Rightarrow> bool" where
  "is_digit c = (48 \<le> c \<and> c \<le> 57)"

definition array_index :: "jsstring \<Rightarrow> nat option" where
  "array_index k =
     (if k \<noteq> [] \<and> list_all is_digit k \<and> (length k = 1 \<or> hd k \<noteq> 48)
      then Some (foldl (\<lambda>a c. 10 * a + (c - 48)) 0 k)
      else None)"

text \<open>The property \<open>k\<close> of a value that is neither null nor undefined.\<close>

fun own :: "jsval \<Rightarrow> jsstring \<Rightarrow> jsval option" where
  "own (JObj kvs) k = map_of kvs k"
| "own (JArr xs) k =
     (case array_index k of
        Some i \<Rightarrow> if i < length xs then Some (xs ! i) else None
      | None \<Rightarrow> if k = str ''length'' then Some (JNum (int (length xs))) else None)"
| "own (JStr s) k =
     (case array_index k of
        Some i \<Rightarrow> if i < length s then Some (JStr [s ! i]) else None
      | None \<Rightarrow> if k = str ''length'' then Some (JNum (int (length s))) else None)"
| "own v k = None"

text \<open>\<open>v.k\<close> and \<open>v[k]\<close>: a TypeError on null and undefined.\<close>

definition member :: "jsval option \<Rightarrow> jsstring \<Rightarrow> js_error + jsval option" where
  "member v k =
     (case v of
        None \<Rightarrow> Inl TypeError
      | Some JNull \<Rightarrow> Inl TypeError
      | Some x \<Rightarrow> Inr (own x k))"

text \<open>\<open>v?.k\<close> and \<open>v?.[k]\<close>: undefined on null and undefined.\<close>

definition opt_member :: "jsval option \<Rightarrow> jsstring \<Rightarrow> jsval option" where
  "opt_member v k =
     (case v of
        None \<Rightarrow> None
      | Some JNull \<Rightarrow> None
      | Some x \<Rightarrow> own x k)"

text \<open>\<open>k in v\<close>: a TypeError unless \<open>v\<close> is an object or an array.\<close>

definition has_in :: "jsstring \<Rightarrow> jsval option \<Rightarrow> js_error + bool" where
  "has_in k v =
     (case v of
        Some (JObj kvs) \<Rightarrow> Inr (map_of kvs k \<noteq> None)
      | Some (JArr xs) \<Rightarrow> Inr (own (JArr xs) k \<noteq> None)
      | _ \<Rightarrow> Inl TypeError)"

text \<open>
  The properties of an object after \<open>o[k] = v\<close>: an existing property keeps its place, a
  new one comes last.
\<close>

fun assign :: "(jsstring \<times> jsval) list \<Rightarrow> jsstring \<Rightarrow> jsval \<Rightarrow> (jsstring \<times> jsval) list" where
  "assign [] k v = [(k, v)]"
| "assign ((k', v') # kvs) k v = (if k' = k then (k, v) # kvs else (k', v') # assign kvs k v)"

text \<open>
  \<open>base.k = v\<close> in strict mode, as the contents of \<open>base\<close> afterwards.  The assignment
  raises a TypeError on null, undefined and the primitive values.  A property of an
  array that is not an index is not part of its JSON contents, which stay as they are.
\<close>

definition put :: "jsval option \<Rightarrow> jsstring \<Rightarrow> jsval \<Rightarrow> js_error + jsval" where
  "put base k v =
     (case base of
        Some (JObj kvs) \<Rightarrow> Inr (JObj (assign kvs k v))
      | Some (JArr xs) \<Rightarrow>
          (case array_index k of
             None \<Rightarrow> Inr (JArr xs)
           | Some i \<Rightarrow>
               if i < length xs then Inr (JArr (xs[i := v]))
               else Inr (JArr (xs @ replicate (i - length xs) JNull @ [v])))
      | _ \<Rightarrow> Inl TypeError)"

text \<open>
  The contents of a container whose property \<open>k\<close> holds an object that has been changed
  in place to \<open>child\<close>.
\<close>

definition store :: "jsval \<Rightarrow> jsstring \<Rightarrow> jsval \<Rightarrow> jsval" where
  "store base k child =
     (case base of
        JObj kvs \<Rightarrow> JObj (assign kvs k child)
      | JArr xs \<Rightarrow> (case array_index k of None \<Rightarrow> JArr xs | Some i \<Rightarrow> JArr (xs[i := child]))
      | _ \<Rightarrow> base)"

text \<open>\<open>Object.keys\<close> and the keys of a \<open>for ... in\<close> loop, for a truthy value.\<close>

fun keys :: "jsval \<Rightarrow> jsstring list" where
  "keys (JObj kvs) = map fst kvs"
| "keys (JArr xs) = map (\<lambda>i. dec i) [0 ..< length xs]"
| "keys (JStr s) = map (\<lambda>i. dec i) [0 ..< length s]"
| "keys v = []"

text \<open>\<open>String (v)\<close>, as a template literal applies it.\<close>

fun join :: "jsstring list \<Rightarrow> jsstring" where
  "join [] = []"
| "join [s] = s"
| "join (s # t # ss) = s @ [44] @ join (t # ss)"

fun to_string :: "jsval \<Rightarrow> jsstring" where
  "to_string JNull = str ''null''"
| "to_string (JBool b) = (if b then str ''true'' else str ''false'')"
| "to_string (JNum n) = show_int n"
| "to_string JNaN = str ''NaN''"
| "to_string (JStr s) = s"
| "to_string (JArr xs) = join (map (\<lambda>x. if x = JNull then [] else to_string x) xs)"
| "to_string (JObj kvs) = str ''[object Object]''"

text \<open>
  \<open>parseInt (v)\<close>: the string of \<open>v\<close> without leading white space, an optional sign, an
  optional prefix \<open>0x\<close>, and the longest run of digits; \<open>NaN\<close> when there is no digit.
\<close>

definition is_space :: "nat \<Rightarrow> bool" where
  "is_space c =
     (c \<in> set [9, 10, 11, 12, 13, 32, 160, 5760, 8232, 8233, 8239, 8287, 12288, 65279]
      \<or> (8192 \<le> c \<and> c \<le> 8202))"

definition digit_value :: "nat \<Rightarrow> nat option" where
  "digit_value c =
     (if 48 \<le> c \<and> c \<le> 57 then Some (c - 48)
      else if 97 \<le> c \<and> c \<le> 122 then Some (c - 87)
      else if 65 \<le> c \<and> c \<le> 90 then Some (c - 55)
      else None)"

definition in_radix :: "nat \<Rightarrow> nat \<Rightarrow> bool" where
  "in_radix r c = (case digit_value c of None \<Rightarrow> False | Some d \<Rightarrow> d < r)"

definition numeral_value :: "nat \<Rightarrow> jsstring \<Rightarrow> jsval" where
  "numeral_value r s =
     (let ds = takeWhile (in_radix r) s in
      if ds = [] then JNaN
      else JNum (int (foldl (\<lambda>a c. r * a + (case digit_value c of None \<Rightarrow> 0 | Some d \<Rightarrow> d)) 0 ds)))"

definition negate :: "jsval \<Rightarrow> jsval" where
  "negate v = (case v of JNum n \<Rightarrow> JNum (- n) | _ \<Rightarrow> v)"

definition unsigned_value :: "jsstring \<Rightarrow> jsval" where
  "unsigned_value s =
     (if starts_with s (str ''0x'') \<or> starts_with s (str ''0X'')
      then numeral_value 16 (drop 2 s)
      else numeral_value 10 s)"

definition parseInt :: "jsval \<Rightarrow> jsval" where
  "parseInt v =
     (let s = dropWhile is_space (to_string v) in
      case s of
        [] \<Rightarrow> JNaN
      | c # cs \<Rightarrow>
          if c = 45 then negate (unsigned_value cs)
          else if c = 43 then unsigned_value cs
          else unsigned_value s)"

text \<open>
  \<open>JSON.parse (JSON.stringify (v))\<close>: a fresh value with the contents of \<open>v\<close>;
  \<open>NaN\<close> is serialised as null.
\<close>

fun json_copy :: "jsval \<Rightarrow> jsval" where
  "json_copy JNull = JNull"
| "json_copy (JBool b) = JBool b"
| "json_copy (JNum n) = JNum n"
| "json_copy JNaN = JNull"
| "json_copy (JStr s) = JStr s"
| "json_copy (JArr xs) = JArr (map json_copy xs)"
| "json_copy (JObj kvs) = JObj (map (\<lambda>(k, v). (k, json_copy v)) kvs)"

section \<open>The parameter injector\<close>

text \<open>The one message the injector writes with \<open>console.warn\<close>, with the workflow name.\<close>

datatype warning = UnknownWorkflow jsstring

text \<open>
  \<open>if (processedWorkflow.prompt && processedWorkflow.prompt[node])
      processedWorkflow.prompt[node].inputs.text = rhs\<close>,
  as the contents of \<open>processedWorkflow\<close> afterwards.  \<open>rhs\<close> is evaluated only when the
  node is there.
\<close>

definition set_node_text :: "jsval \<Rightarrow> jsstring \<Rightarrow> (js_error + jsval) \<Rightarrow> js_error + jsval" where
  "set_node_text processedWorkflow node rhs =
     and_then (member (Some processedWorkflow) (str ''prompt'')) (\<lambda>prompt.
       case prompt of
         None \<Rightarrow> Inr processedWorkflow
       | Some p \<Rightarrow>
           if \<not> truthy p then Inr processedWorkflow
           else and_then (member (Some p) node) (\<lambda>nd.
             case nd of
               None \<Rightarrow> Inr processedWorkflow
             | Some n \<Rightarrow>
                 if \<not> truthy n then Inr processedWorkflow
                 else and_then (member (Some n) (str ''inputs'')) (\<lambda>base.
                      and_then rhs (\<lambda>v.
                      and_then (put base (str ''text'') v) (\<lambda>base'.
                        Inr (store processedWorkflow (str ''prompt'')
                              (store p node (store n (str ''inputs'') base'))))))))"

text \<open>\<open>a || s\<close> for a string literal \<open>s\<close>.\<close>

definition or_literal :: "jsval option \<Rightarrow> string \<Rightarrow> jsval" where
  "or_literal a s = (case a of None \<Rightarrow> JStr (str s) | Some x \<Rightarrow> if truthy x then x else JStr (str s))"

definition fashion_sketch_text :: "jsval option \<Rightarrow> js_error + jsval" where
  "fashion_sketch_text inputs =
     and_then (member inputs (str ''prompt_text'')) (\<lambda>a.
       if truthy_opt a then Inr (or_literal a ''fashion sketch'')
       else and_then (member inputs (str ''prompt'')) (\<lambda>b. Inr (or_literal b ''fashion sketch'')))"

definition negative_text :: "jsval option \<Rightarrow> js_error + jsval" where
  "negative_text inputs =
     and_then (member inputs (str ''negative_prompt'')) (\<lambda>a.
       Inr (or_literal a ''bad anatomy, low quality''))"

definition patternPrompt :: "jsval option \<Rightarrow> js_error + jsval" where
  "patternPrompt inputs =
     and_then (member inputs (str ''pattern_type'')) (\<lambda>a.
     and_then (member inputs (str ''colors'')) (\<lambda>b.
       Inr (JStr (to_string (or_literal a ''floral'') @ str '' pattern, ''
                  @ to_string (or_literal b ''colorful'') @ str '', seamless, high quality''))))"

definition modelPrompt :: "jsval option \<Rightarrow> js_error + jsval" where
  "modelPrompt inputs =
     and_then (member inputs (str ''model_type'')) (\<lambda>a.
     and_then (member inputs (str ''garment_description'')) (\<lambda>b.
       Inr (JStr (to_string (or_literal a ''female'') @ str '' model wearing ''
                  @ to_string (or_literal b ''fashionable clothing'')
                  @ str '', professional photography''))))"

text \<open>The default case of the switch, after its warning.\<close>

definition generic_inputs :: "jsval \<Rightarrow> jsval option \<Rightarrow> js_error + jsval" where
  "generic_inputs processedWorkflow inputs =
     and_then (member inputs (str ''prompt_text'')) (\<lambda>a.
       case a of
         None \<Rightarrow> Inr processedWorkflow
       | Some t \<Rightarrow>
           if \<not> truthy t then Inr processedWorkflow
           else set_node_text processedWorkflow (str ''6'') (Inr t))"

text \<open>
  The body of the \<open>forEach\<close> over the node identifiers of the prompt, as the contents
  of the prompt afterwards: the seed of a node is overwritten when the node is a
  \<open>KSampler\<close> whose inputs have a seed.
\<close>

definition seed_node :: "jsval \<Rightarrow> jsval \<Rightarrow> jsstring \<Rightarrow> js_error + jsval" where
  "seed_node seed prompt nodeId =
     (let node = own prompt nodeId in
      and_then (member node (str ''class_type'')) (\<lambda>ct.
        if ct \<noteq> Some (JStr (str ''KSampler'')) then Inr prompt
        else and_then (member node (str ''inputs'')) (\<lambda>ins.
          if \<not> truthy_opt ins then Inr prompt
          else and_then (has_in (str ''seed'') ins) (\<lambda>present.
            if \<not> present then Inr prompt
            else and_then (put ins (str ''seed'') (parseInt seed)) (\<lambda>ins'.
              case node of
                None \<Rightarrow> Inr prompt
              | Some n \<Rightarrow> Inr (store prompt nodeId (store n (str ''inputs'') ins')))))))"

fun seed_nodes :: "jsval \<Rightarrow> jsstring list \<Rightarrow> jsval \<Rightarrow> js_error + jsval" where
  "seed_nodes seed [] prompt = Inr prompt"
| "seed_nodes seed (nodeId # ids) prompt =
     and_then (seed_node seed prompt nodeId) (seed_nodes seed ids)"

text \<open>\<open>if (inputs.seed && processedWorkflow.prompt) { ... }\<close>\<close>

definition inject_seed :: "jsval \<Rightarrow> jsval option \<Rightarrow> js_error + jsval" where
  "inject_seed processedWorkflow inputs =
     and_then (member inputs (str ''seed'')) (\<lambda>seed.
       case seed of
         None \<Rightarrow> Inr processedWorkflow
       | Some sd \<Rightarrow>
           if \<not> truthy sd then Inr processedWorkflow
           else and_then (member (Some processedWorkflow) (str ''prompt'')) (\<lambda>prompt.
             case prompt of
               None \<Rightarrow> Inr processedWorkflow
             | Some p \<Rightarrow>
                 if \<not> truthy p then Inr processedWorkflow
                 else and_then (seed_nodes sd (keys p) p) (\<lambda>p'.
                   Inr (store processedWorkflow (str ''prompt'') p'))))"

definition known_workflows :: "jsstring list" where
  "known_workflows = [str ''fashion-sketch'', str ''pattern-generation'', str ''model-visualization'']"

text \<open>The switch on the workflow name, with the warnings it writes.\<close>

definition inject_by_name ::
  "jsval \<Rightarrow> jsstring \<Rightarrow> jsval option \<Rightarrow> warning list \<times> (js_error + jsval)" where
  "inject_by_name processedWorkflow workflowName inputs =
     (if workflowName = str ''fashion-sketch'' then
        ([], and_then (set_node_text processedWorkflow (str ''6'') (fashion_sketch_text inputs))
               (\<lambda>w. set_node_text w (str ''7'') (negative_text inputs)))
      else if workflowName = str ''pattern-generation'' then
        ([], set_node_text processedWorkflow (str ''6'') (patternPrompt inputs))
      else if workflowName = str ''model-visualization'' then
        ([], set_node_text processedWorkflow (str ''6'') (modelPrompt inputs))
      else
        ([UnknownWorkflow workflowName], generic_inputs processedWorkflow inputs))"

text \<open>
  \<open>injectWorkflowParameters\<close>: the warnings written and the value returned, or the
  error of the catch block.
\<close>

definition injectWorkflowParameters ::
  "jsval \<Rightarrow> jsstring \<Rightarrow> jsval option \<Rightarrow> warning list \<times> (js_error + jsval)" where
  "injectWorkflowParameters workflow workflowName inputs =
     (let processedWorkflow = json_copy workflow;
          (warnings, switched) = inject_by_name processedWorkflow workflowName inputs
      in
      case and_then switched (\<lambda>w. inject_seed w inputs) of
        Inl e \<Rightarrow> (warnings, Inl (Rethrown (str ''Falha ao processar par'' @ [226] @ str ''metros do workflow: '') e))
      | Inr w \<Rightarrow> (warnings, Inr w))"

section \<open>The completion poller\<close>

text \<open>
  What a run of the worker does that can be observed from outside: a progress report
  (\<open>job.updateProgress\<close>), a status query (with the number of attempts made before it),
  a sleep (in milliseconds) and a warning.  The value of a progress report is a number
  of the language, a double, given by the rational number it denotes.
\<close>

datatype event =
    Progress rat
  | Query nat
  | Sleep nat
  | Warning warning

text \<open>
  The outcome of one status query: \<open>fetch\<close> or the reading of the body raises; the
  response is not ok, with its status; or the response is ok, with its parsed body.
\<close>

datatype response =
    Rejected js_error
  | NotOk int
  | Body jsval

definition maxAttempts :: nat where
  "maxAttempts = 120"

text \<open>
  The try block of one iteration: it returns the outputs, falls through to the sleep
  (after the events it has emitted), or raises.
\<close>

datatype attempt =
    Completed "jsval option"
  | Pending "event list"
  | Thrown js_error

text \<open>\<open>jobData.status.messages?.[0]?.[1] || 'Erro desconhecido no ComfyUI'\<close>\<close>

definition errorMsg :: "jsval \<Rightarrow> jsval" where
  "errorMsg status =
     or_literal (opt_member (opt_member (own status (str ''messages'')) (str ''0'')) (str ''1''))
       ''Erro desconhecido no ComfyUI''"

subsection \<open>Double-precision arithmetic\<close>

text \<open>The number of binary digits of a natural number.\<close>

fun bit_length :: "nat \<Rightarrow> nat" where
  "bit_length n = (if n = 0 then 0 else Suc (bit_length (n div 2)))"

text \<open>The binary exponent of a positive number \<open>x\<close>: the \<open>e\<close> with \<open>2\<^sup>e \<le> x < 2\<^sup>e\<^sup>+\<^sup>1\<close>.\<close>

definition exponent :: "rat \<Rightarrow> int" where
  "exponent x =
     (if 1 \<le> x then int (bit_length (nat \<lfloor>x\<rfloor>)) - 1
      else - int (bit_length (nat (\<lceil>1 / x\<rceil> - 1))))"

text \<open>The nearest integer, a half rounded to the even neighbour.\<close>

definition round_half_even :: "rat \<Rightarrow> int" where
  "round_half_even x =
     (let f = \<lfloor>x\<rfloor>; d = x - of_int f in
      if d < 1 / 2 then f else if 1 / 2 < d then f + 1 else if even f then f else f + 1)"

text \<open>
  The double nearest to a number, ties to the even significand: the rounding that every
  arithmetic operation of the language applies to its exact result.  A significand has
  53 binary digits; below \<open>2\<^sup>-\<^sup>1\<^sup>0\<^sup>2\<^sup>2\<close> the spacing of the doubles stays that of the
  smallest binade.  The overflow to infinity, from \<open>2\<^sup>1\<^sup>0\<^sup>2\<^sup>4 - 2\<^sup>9\<^sup>7\<^sup>0\<close> on, is left out:
  the numbers of the worker are below 128.
\<close>

definition to_double :: "rat \<Rightarrow> rat" where
  "to_double x =
     (if x = 0 then 0
      else
        let e = max (exponent \<bar>x\<bar>) (- 1022);
            ulp = 2 powi (e - 52)
        in sgn x * of_int (round_half_even (\<bar>x\<bar> / ulp)) * ulp)"

text \<open>
  The progress of a running job, \<open>Math.min (50 + (attempts / maxAttempts) * 40, 89)\<close>:
  a division, a multiplication and an addition of doubles, each rounded.  \<open>attempts\<close>,
  \<open>maxAttempts\<close>, 40, 50 and 89 are doubles as they stand.
\<close>

definition polling_progress :: "nat \<Rightarrow> rat" where
  "polling_progress attempts =
     min (to_double (50 + to_double (to_double (of_nat attempts / of_nat maxAttempts) * 40))) 89"

definition try_query :: "response \<Rightarrow> jsstring \<Rightarrow> nat \<Rightarrow> attempt" where
  "try_query r promptId attempts =
     (case r of
        Rejected e \<Rightarrow> Thrown e
      | NotOk st \<Rightarrow>
          Thrown (Error (str ''Erro ao consultar hist'' @ [243] @ str ''rico: '' @ show_int st))
      | Body history \<Rightarrow>
          (case member (Some history) promptId of
             Inl e \<Rightarrow> Thrown e
           | Inr None \<Rightarrow> Pending []
           | Inr (Some jobData) \<Rightarrow>
               if \<not> truthy jobData then Pending []
               else
                 (case own jobData (str ''status'') of
                    None \<Rightarrow> Pending [Progress (polling_progress attempts)]
                  | Some status \<Rightarrow>
                      if truthy status \<and> truthy_opt (own status (str ''completed''))
                      then Completed (own jobData (str ''outputs''))
                      else if truthy status
                              \<and> own status (str ''status_str'') = Some (JStr (str ''error''))
                      then Thrown (Error (str ''ComfyUI Error: '' @ to_string (errorMsg status)))
                      else Pending [Progress (polling_progress attempts)])))"

definition emit :: "event list \<Rightarrow> event list \<times> 'a \<Rightarrow> event list \<times> 'a" where
  "emit evs r = (evs @ fst r, snd r)"

definition timeout_error :: js_error where
  "timeout_error =
     Error (str ''Timeout: ComfyUI n'' @ [227] @ str ''o completou o processamento em ''
            @ show_int (int (maxAttempts * 5)) @ str '' segundos'')"

text \<open>
  The while loop of \<open>waitForComfyUICompletion\<close>, from a number of attempts made.  The
  catch block is the one of the whole try block: it receives the error of a failed query
  and the error raised for an error status alike.
\<close>

function wait_loop ::
  "(nat \<Rightarrow> response) \<Rightarrow> jsstring \<Rightarrow> nat \<Rightarrow> event list \<times> (js_error + jsval option)" where
  "wait_loop responses promptId attempts =
     (if attempts < maxAttempts then
        (case try_query (responses attempts) promptId attempts of
           Completed outputs \<Rightarrow> ([Query attempts], Inr outputs)
         | Pending evs \<Rightarrow>
             emit (Query attempts # evs @ [Sleep 5000])
               (wait_loop responses promptId (attempts + 1))
         | Thrown e \<Rightarrow>
             if attempts + 1 \<ge> maxAttempts then ([Query attempts], Inl e)
             else emit [Query attempts, Sleep 5000]
                    (wait_loop responses promptId (attempts + 1)))
      else ([], Inl timeout_error))"
  by pat_completeness auto
termination
  by (relation "measure (\<lambda>(responses, promptId, attempts). maxAttempts - attempts)") auto

definition waitForComfyUICompletion ::
  "(nat \<Rightarrow> response) \<Rightarrow> jsstring \<Rightarrow> event list \<times> (js_error + jsval option)" where
  "waitForComfyUICompletion responses promptId = wait_loop responses promptId 0"

section \<open>The result extractor\<close>

record GeneratedImage =
  filename :: "jsval option"
  subfolder :: "jsval option"
  image_type :: "jsval option"
  node_id :: jsstring

record result_metadata =
  workflow :: jsstring
  requester :: "jsstring option"
  generated_at :: int

record results =
  images :: "GeneratedImage list"
  metadata :: result_metadata

definition image_entry :: "jsstring \<Rightarrow> jsval \<Rightarrow> js_error + GeneratedImage" where
  "image_entry nodeId img =
     and_then (member (Some img) (str ''filename'')) (\<lambda>f.
     and_then (member (Some img) (str ''subfolder'')) (\<lambda>s.
     and_then (member (Some img) (str ''type'')) (\<lambda>t.
       Inr \<lparr> filename = f, subfolder = s, image_type = t, node_id = nodeId \<rparr>)))"

text \<open>The inner loop: the images of one node, pushed in order.\<close>

fun push_images :: "jsstring \<Rightarrow> jsval list \<Rightarrow> js_error + GeneratedImage list" where
  "push_images nodeId [] = Inr []"
| "push_images nodeId (img # rest) =
     and_then (image_entry nodeId img) (\<lambda>g.
     and_then (push_images nodeId rest) (\<lambda>gs. Inr (g # gs)))"

text \<open>
  The body of the outer loop:
  \<open>if (nodeOutputs.images && Array.isArray (nodeOutputs.images)) { ... }\<close>
\<close>

definition node_images :: "jsval \<Rightarrow> jsstring \<Rightarrow> js_error + GeneratedImage list" where
  "node_images outputs nodeId =
     and_then (member (own outputs nodeId) (str ''images'')) (\<lambda>imgs.
       case imgs of
         Some (JArr xs) \<Rightarrow> push_images nodeId xs
       | _ \<Rightarrow> Inr [])"

fun all_images :: "jsval \<Rightarrow> jsstring list \<Rightarrow> js_error + GeneratedImage list" where
  "all_images outputs [] = Inr []"
| "all_images outputs (nodeId # ids) =
     and_then (node_images outputs nodeId) (\<lambda>gs.
     and_then (all_images outputs ids) (\<lambda>hs. Inr (gs @ hs)))"

definition no_output :: js_error where
  "no_output = Error (str ''Nenhum output recebido do ComfyUI'')"

text \<open>
  \<open>processComfyUIOutputs\<close>; \<open>now\<close> is the instant of \<open>generated_at\<close>.  Every error of the
  try block, the one for missing outputs included, is raised again by the catch block
  under the prefix "Falha ao processar resultados: ".
\<close>

definition processComfyUIOutputs :: "int \<Rightarrow> jsval option \<Rightarrow> job_data \<Rightarrow> js_error + results" where
  "processComfyUIOutputs now outputs d =
     (case (case outputs of
              None \<Rightarrow> Inl no_output
            | Some out \<Rightarrow> if \<not> truthy out then Inl no_output else all_images out (keys out)) of
        Inl e \<Rightarrow> Inl (Rethrown (str ''Falha ao processar resultados: '') e)
      | Inr imgs \<Rightarrow>
          Inr \<lparr> images = imgs,
                metadata = \<lparr> workflow = workflow_name d, requester = user_id d,
                              generated_at = now \<rparr> \<rparr>)"

section \<open>The worker loop\<close>

text \<open>
  The collaborators of one run: the workflow file (absent, not JSON, or parsed), the
  answer to the submission (\<open>fetch\<close> or the reading of the body raises; not ok, with
  status and text; or ok, with the parsed body), the answers to the status queries, and
  the clock.
\<close>

datatype load = NotFound | Malformed | Loaded jsval

datatype submission =
    SubmitRejected js_error
  | SubmitNotOk int jsstring
  | Accepted jsval

record worker_env =
  workflow_file :: load
  submitted :: submission
  history_responses :: "nat \<Rightarrow> response"
  wall_clock :: int

record completed =
  prompt_id :: jsval
  job_results :: results
  completed_at :: int

definition imageGenerationWorker ::
  "worker_env \<Rightarrow> job_data \<Rightarrow> event list \<times> (js_error + completed)" where
  "imageGenerationWorker env d =
     emit [Progress 10]
       (case workflow_file env of
          NotFound \<Rightarrow>
            ([], Inl (Error (str ''Workflow n'' @ [227] @ str ''o encontrado: '' @ workflow_name d)))
        | Malformed \<Rightarrow> ([], Inl SyntaxError)
        | Loaded workflow0 \<Rightarrow>
            emit [Progress 20]
              (case injectWorkflowParameters workflow0 (workflow_name d) (data_inputs d) of
                 (warnings, Inl e) \<Rightarrow> (map Warning warnings, Inl e)
               | (warnings, Inr workflow1) \<Rightarrow>
                   emit (map Warning warnings @ [Progress 30])
                     (case member (Some workflow1) (str ''prompt'') of
                        Inl e \<Rightarrow> ([], Inl e)
                      | Inr body \<Rightarrow>
                         (case submitted env of
                            SubmitRejected e \<Rightarrow> ([], Inl e)
                          | SubmitNotOk st errorData \<Rightarrow>
                              ([], Inl (Error (str ''ComfyUI API Error ('' @ show_int st
                                                @ str ''): '' @ errorData)))
                          | Accepted result \<Rightarrow>
                             (case member (Some result) (str ''prompt_id'') of
                                Inl e \<Rightarrow> ([], Inl e)
                              | Inr None \<Rightarrow>
                                  ([], Inl (Error (str ''ComfyUI n'' @ [227]
                                         @ str ''o retornou um prompt_id v'' @ [225] @ str ''lido'')))
                              | Inr (Some promptId) \<Rightarrow>
                                  if \<not> truthy promptId then
                                    ([], Inl (Error (str ''ComfyUI n'' @ [227]
                                         @ str ''o retornou um prompt_id v'' @ [225] @ str ''lido'')))
                                  else
                                    emit [Progress 50]
                                      (case waitForComfyUICompletion (history_responses env)
                                              (to_string promptId) of
                                         (evs, Inl e) \<Rightarrow> (evs, Inl e)
                                       | (evs, Inr outputs) \<Rightarrow>
                                           emit (evs @ [Progress 90])
                                             (case processComfyUIOutputs (wall_clock env) outputs d of
                                                Inl e \<Rightarrow> ([], Inl e)
                                              | Inr res \<Rightarrow>
                                                  ([Progress 100],
                                                   Inr \<lparr> prompt_id = promptId,
                                                         job_results = res,
                                                         completed_at = wall_clock env \<rparr>))))))))"

text \<open>The progress values among the events, in order.\<close>

fun progress_values :: "event list \<Rightarrow> rat list" where
  "progress_values [] = []"
| "progress_values (Progress p # evs) = p # progress_values evs"
| "progress_values (e # evs) = progress_values evs"

fun queries :: "event list \<Rightarrow> nat list" where
  "queries [] = []"
| "queries (Query i # evs) = i # queries evs"
| "queries (e # evs) = queries evs"

fun sleeps :: "event list \<Rightarrow> nat list" where
  "sleeps [] = []"
| "sleeps (Sleep t # evs) = t # sleeps evs"
| "sleeps (e # evs) = sleeps evs"

text \<open>
  The time slept between each status query and the next one.  The first argument is
  the time slept since the last query, \<open>None\<close> before the first query.
\<close>

fun intervals_from :: "nat option \<Rightarrow> event list \<Rightarrow> nat list" where
  "intervals_from t [] = []"
| "intervals_from t (Query i # evs) =
     (case t of None \<Rightarrow> [] | Some d \<Rightarrow> [d]) @ intervals_from (Some 0) evs"
| "intervals_from t (Sleep d # evs) = intervals_from (map_option (\<lambda>s. s + d) t) evs"
| "intervals_from t (e # evs) = intervals_from t evs"

definition intervals :: "event list \<Rightarrow> nat list" where
  "intervals evs = intervals_from None evs"

text \<open>
  The progress reports of a trace, each with the number of the status query it follows
  (the first argument before the first query).
\<close>

fun progress_by_query :: "nat \<Rightarrow> event list \<Rightarrow> (nat \<times> rat) list" where
  "progress_by_query i [] = []"
| "progress_by_query i (Query j # evs) = progress_by_query j evs"
| "progress_by_query i (Progress p # evs) = (i, p) # progress_by_query i evs"
| "progress_by_query i (e # evs) = progress_by_query i evs"

section \<open>Well-formed outputs and templates\<close>

text \<open>
  The artifacts of one node group, in the words of the specification: one artifact for
  every entry of the image list of the group, tagged with the node identifier, and none
  when the group has no image list.
\<close>

definition artifacts_of :: "jsstring \<Rightarrow> jsval \<Rightarrow> GeneratedImage list" where
  "artifacts_of nodeId grp =
     (case own grp (str ''images'') of
        Some (JArr imgs) \<Rightarrow>
          map (\<lambda>img. \<lparr> filename = own img (str ''filename''),
                       subfolder = own img (str ''subfolder''),
                       image_type = own img (str ''type''), node_id = nodeId \<rparr>) imgs
      | _ \<Rightarrow> [])"

text \<open>
  An outputs object as the backend produces it: its node groups are not null, and the
  entries of an image list are not null.
\<close>

definition well_formed_group :: "jsval \<Rightarrow> bool" where
  "well_formed_group grp =
     (grp \<noteq> JNull \<and>
      (case own grp (str ''images'') of
         Some (JArr imgs) \<Rightarrow> list_all (\<lambda>img. img \<noteq> JNull) imgs
       | _ \<Rightarrow> True))"

definition well_formed_groups :: "(jsstring \<times> jsval) list \<Rightarrow> bool" where
  "well_formed_groups groups =
     (distinct (map fst groups) \<and> list_all (\<lambda>kg. well_formed_group (snd kg)) groups)"

text \<open>The error of the extractor for missing outputs, as the catch block raises it again.\<close>

definition empty_output_error :: js_error where
  "empty_output_error = Rethrown (str ''Falha ao processar resultados: '') no_output"

fun is_object :: "jsval \<Rightarrow> bool" where
  "is_object (JObj kvs) = True"
| "is_object v = False"

fun properties :: "jsval \<Rightarrow> (jsstring \<times> jsval) list" where
  "properties (JObj kvs) = kvs"
| "properties v = []"

text \<open>
  A template in the format the backend accepts: an object whose prompt, when there is
  one, is an object of nodes, each node an object with an inputs object.
\<close>

definition well_formed_node :: "jsval \<Rightarrow> bool" where
  "well_formed_node n =
     (is_object n \<and> (case own n (str ''inputs'') of None \<Rightarrow> False | Some i \<Rightarrow> is_object i))"

definition well_formed_template :: "jsval \<Rightarrow> bool" where
  "well_formed_template w =
     (is_object w \<and>
      (case own w (str ''prompt'') of
         None \<Rightarrow> True
       | Some p \<Rightarrow> is_object p \<and> list_all (\<lambda>kn. well_formed_node (snd kn)) (properties p)))"

text \<open>
  A sampling node in the sense of the seed step: its node type is \<open>KSampler\<close> and its
  inputs have a seed.  \<open>seeded v\<close> is such a node with the seed \<open>v\<close>, and any other node
  as it is.
\<close>

definition is_sampler :: "jsval \<Rightarrow> bool" where
  "is_sampler nd =
     (own nd (str ''class_type'') = Some (JStr (str ''KSampler''))
      \<and> (case own nd (str ''inputs'') of None \<Rightarrow> False | Some i \<Rightarrow> own i (str ''seed'') \<noteq> None))"

definition node_seed :: "jsval \<Rightarrow> jsval option" where
  "node_seed nd = (case own nd (str ''inputs'') of None \<Rightarrow> None | Some i \<Rightarrow> own i (str ''seed''))"

definition seeded :: "jsval \<Rightarrow> jsval \<Rightarrow> jsval" where
  "seeded v nd =
     (if is_sampler nd
      then JObj (assign (properties nd) (str ''inputs'')
                  (JObj (assign (properties (case own nd (str ''inputs'') of None \<Rightarrow> JNull | Some i \<Rightarrow> i))
                           (str ''seed'') v)))
      else nd)"

definition prompt_nodes :: "jsval \<Rightarrow> (jsstring \<times> jsval) list" where
  "prompt_nodes w = (case own w (str ''prompt'') of None \<Rightarrow> [] | Some p \<Rightarrow> properties p)"

section \<open>The injector on a heap of objects\<close>

text \<open>
  Whether the injector writes to the template or to a copy of it cannot be told from
  the value it returns.  Here objects have an identity: the heap is a list of cells, one
  for every object and array, and the address of an object is the index of its cell.
  Allocation appends a cell.  A value is a primitive, a reference to a cell, or a
  reference to an object of the inputs; the inputs of the job are a separate JSON
  document, which the injector only reads, and are given by their contents.
\<close>

type_synonym addr = nat

datatype hval =
    HNull
  | HBool bool
  | HNum int
  | HNaN
  | HStr jsstring
  | HRef addr
  | HData jsval

datatype cell =
    Fields "(jsstring \<times> hval) list"
  | Elements "hval list"

type_synonym heap = "cell list"

text \<open>A value read from the inputs, as a value of the heap.\<close>

fun input_value :: "jsval \<Rightarrow> hval" where
  "input_value JNull = HNull"
| "input_value (JBool b) = HBool b"
| "input_value (JNum n) = HNum n"
| "input_value JNaN = HNaN"
| "input_value (JStr s) = HStr s"
| "input_value v = HData v"

fun truthyH :: "hval \<Rightarrow> bool" where
  "truthyH HNull = False"
| "truthyH (HBool b) = b"
| "truthyH (HNum n) = (n \<noteq> 0)"
| "truthyH HNaN = False"
| "truthyH (HStr s) = (s \<noteq> [])"
| "truthyH (HRef a) = True"
| "truthyH (HData v) = True"

fun ownH :: "heap \<Rightarrow> hval \<Rightarrow> jsstring \<Rightarrow> hval option" where
  "ownH h (HRef a) k =
     (if a < length h then
        (case h ! a of
           Fields kvs \<Rightarrow> map_of kvs k
         | Elements vs \<Rightarrow>
             (case array_index k of
                Some i \<Rightarrow> if i < length vs then Some (vs ! i) else None
              | None \<Rightarrow> if k = str ''length'' then Some (HNum (int (length vs))) else None))
      else None)"
| "ownH h (HStr s) k =
     (case array_index k of
        Some i \<Rightarrow> if i < length s then Some (HStr [s ! i]) else None
      | None \<Rightarrow> if k = str ''length'' then Some (HNum (int (length s))) else None)"
| "ownH h (HData v) k = map_option input_value (own v k)"
| "ownH h v k = None"

definition memberH :: "heap \<Rightarrow> hval option \<Rightarrow> jsstring \<Rightarrow> js_error + hval option" where
  "memberH h v k =
     (case v of
        None \<Rightarrow> Inl TypeError
      | Some HNull \<Rightarrow> Inl TypeError
      | Some x \<Rightarrow> Inr (ownH h x k))"

definition has_inH :: "heap \<Rightarrow> jsstring \<Rightarrow> hval option \<Rightarrow> js_error + bool" where
  "has_inH h k v =
     (case v of
        Some (HRef a) \<Rightarrow> Inr (ownH h (HRef a) k \<noteq> None)
      | Some (HData d) \<Rightarrow> Inr (ownH h (HData d) k \<noteq> None)
      | _ \<Rightarrow> Inl TypeError)"

fun assignH :: "(jsstring \<times> hval) list \<Rightarrow> jsstring \<Rightarrow> hval \<Rightarrow> (jsstring \<times> hval) list" where
  "assignH [] k v = [(k, v)]"
| "assignH ((k', v') # kvs) k v = (if k' = k then (k, v) # kvs else (k', v') # assignH kvs k v)"

text \<open>
  \<open>base.k = v\<close>: the cell of \<open>base\<close> is overwritten in place.  An object of the inputs is
  not a cell of the heap, and a write to it leaves the heap as it is.
\<close>

definition putH :: "heap \<Rightarrow> hval option \<Rightarrow> jsstring \<Rightarrow> hval \<Rightarrow> js_error + heap" where
  "putH h base k v =
     (case base of
        Some (HRef a) \<Rightarrow>
          if a < length h then
            (case h ! a of
               Fields kvs \<Rightarrow> Inr (h[a := Fields (assignH kvs k v)])
             | Elements vs \<Rightarrow>
                 (case array_index k of
                    None \<Rightarrow> Inr h
                  | Some i \<Rightarrow>
                      if i < length vs then Inr (h[a := Elements (vs[i := v])])
                      else Inr (h[a := Elements (vs @ replicate (i - length vs) HNull @ [v])])))
          else Inr h
      | Some (HData d) \<Rightarrow> Inr h
      | _ \<Rightarrow> Inl TypeError)"

fun keysH :: "heap \<Rightarrow> hval \<Rightarrow> jsstring list" where
  "keysH h (HRef a) =
     (if a < length h then
        (case h ! a of
           Fields kvs \<Rightarrow> map fst kvs
         | Elements vs \<Rightarrow> map (\<lambda>i. dec i) [0 ..< length vs])
      else [])"
| "keysH h (HStr s) = map (\<lambda>i. dec i) [0 ..< length s]"
| "keysH h (HData v) = keys v"
| "keysH h v = []"

text \<open>
  The contents of a value, read to a given depth of references; \<open>None\<close> beyond it.
\<close>

fun contents :: "nat \<Rightarrow> heap \<Rightarrow> hval \<Rightarrow> jsval option" where
  "contents f h HNull = Some JNull"
| "contents f h (HBool b) = Some (JBool b)"
| "contents f h (HNum n) = Some (JNum n)"
| "contents f h HNaN = Some JNaN"
| "contents f h (HStr s) = Some (JStr s)"
| "contents f h (HData v) = Some v"
| "contents 0 h (HRef a) = None"
| "contents (Suc f) h (HRef a) =
     (if a < length h then
        (case h ! a of
           Elements vs \<Rightarrow> map_option JArr (those (map (contents f h) vs))
         | Fields kvs \<Rightarrow>
             map_option JObj
               (those (map (\<lambda>kv. map_option (Pair (fst kv)) (contents f h (snd kv))) kvs)))
      else None)"

text \<open>
  \<open>JSON.stringify (v)\<close>, as the document it writes: the contents of \<open>v\<close>, \<open>NaN\<close> written
  as null.  A value nested deeper than the heap has cells goes through a cell twice:
  the structure is circular and \<open>JSON.stringify\<close> raises a TypeError (\<open>None\<close>).
\<close>

definition stringify :: "heap \<Rightarrow> hval \<Rightarrow> jsval option" where
  "stringify h v = map_option json_copy (contents (Suc (length h)) h v)"

text \<open>
  \<open>JSON.parse\<close> of a document: every array and object of it is a new cell, allocated
  after the cells of its members.
\<close>

fun parseH :: "jsval \<Rightarrow> heap \<Rightarrow> hval \<times> heap"
  and parse_elements :: "jsval list \<Rightarrow> heap \<Rightarrow> hval list \<times> heap"
  and parse_fields :: "(jsstring \<times> jsval) list \<Rightarrow> heap \<Rightarrow> (jsstring \<times> hval) list \<times> heap" where
  "parseH JNull h = (HNull, h)"
| "parseH (JBool b) h = (HBool b, h)"
| "parseH (JNum n) h = (HNum n, h)"
| "parseH JNaN h = (HNaN, h)"
| "parseH (JStr s) h = (HStr s, h)"
| "parseH (JArr xs) h =
     (case parse_elements xs h of (vs, h') \<Rightarrow> (HRef (length h'), h' @ [Elements vs]))"
| "parseH (JObj kvs) h =
     (case parse_fields kvs h of (fs, h') \<Rightarrow> (HRef (length h'), h' @ [Fields fs]))"
| "parse_elements [] h = ([], h)"
| "parse_elements (x # xs) h =
     (case parseH x h of (v, h1) \<Rightarrow>
        case parse_elements xs h1 of (vs, h2) \<Rightarrow> (v # vs, h2))"
| "parse_fields [] h = ([], h)"
| "parse_fields ((k, x) # kvs) h =
     (case parseH x h of (v, h1) \<Rightarrow>
        case parse_fields kvs h1 of (fs, h2) \<Rightarrow> ((k, v) # fs, h2))"

text \<open>
  The steps of the injector, each as the heap afterwards and the error raised, if any.
  The values assigned are computed from the inputs as before.
\<close>

definition set_node_textH ::
  "heap \<Rightarrow> hval \<Rightarrow> jsstring \<Rightarrow> (js_error + jsval) \<Rightarrow> heap \<times> (js_error + unit)" where
  "set_node_textH h processedWorkflow node rhs =
     (case memberH h (Some processedWorkflow) (str ''prompt'') of
        Inl e \<Rightarrow> (h, Inl e)
      | Inr prompt \<Rightarrow>
          (case prompt of
             None \<Rightarrow> (h, Inr ())
           | Some p \<Rightarrow>
               if \<not> truthyH p then (h, Inr ())
               else
                 (case memberH h (Some p) node of
                    Inl e \<Rightarrow> (h, Inl e)
                  | Inr None \<Rightarrow> (h, Inr ())
                  | Inr (Some n) \<Rightarrow>
                      if \<not> truthyH n then (h, Inr ())
                      else
                        (case memberH h (Some n) (str ''inputs'') of
                           Inl e \<Rightarrow> (h, Inl e)
                         | Inr base \<Rightarrow>
                             (case rhs of
                                Inl e \<Rightarrow> (h, Inl e)
                              | Inr v \<Rightarrow>
                                  (case putH h base (str ''text'') (input_value v) of
                                     Inl e \<Rightarrow> (h, Inl e)
                                   | Inr h' \<Rightarrow> (h', Inr ())))))))"

definition generic_inputsH :: "heap \<Rightarrow> hval \<Rightarrow> jsval option \<Rightarrow> heap \<times> (js_error + unit)" where
  "generic_inputsH h processedWorkflow inputs =
     (case member inputs (str ''prompt_text'') of
        Inl e \<Rightarrow> (h, Inl e)
      | Inr None \<Rightarrow> (h, Inr ())
      | Inr (Some t) \<Rightarrow>
          if \<not> truthy t then (h, Inr ())
          else set_node_textH h processedWorkflow (str ''6'') (Inr t))"

definition seed_nodeH :: "jsval \<Rightarrow> heap \<Rightarrow> hval \<Rightarrow> jsstring \<Rightarrow> heap \<times> (js_error + unit)" where
  "seed_nodeH seed h prompt nodeId =
     (let node = ownH h prompt nodeId in
      case memberH h node (str ''class_type'') of
        Inl e \<Rightarrow> (h, Inl e)
      | Inr ct \<Rightarrow>
          if ct \<noteq> Some (HStr (str ''KSampler'')) then (h, Inr ())
          else
            (case memberH h node (str ''inputs'') of
               Inl e \<Rightarrow> (h, Inl e)
             | Inr None \<Rightarrow> (h, Inr ())
             | Inr (Some ins) \<Rightarrow>
                 if \<not> truthyH ins then (h, Inr ())
                 else
                   (case has_inH h (str ''seed'') (Some ins) of
                      Inl e \<Rightarrow> (h, Inl e)
                    | Inr present \<Rightarrow>
                        if \<not> present then (h, Inr ())
                        else
                          (case putH h (Some ins) (str ''seed'') (input_value (parseInt seed)) of
                             Inl e \<Rightarrow> (h, Inl e)
                           | Inr h' \<Rightarrow> (h', Inr ())))))"

fun seed_nodesH :: "jsval \<Rightarrow> jsstring list \<Rightarrow> hval \<Rightarrow> heap \<Rightarrow> heap \<times> (js_error + unit)" where
  "seed_nodesH seed [] prompt h = (h, Inr ())"
| "seed_nodesH seed (nodeId # ids) prompt h =
     (case seed_nodeH seed h prompt nodeId of
        (h', Inl e) \<Rightarrow> (h', Inl e)
      | (h', Inr u) \<Rightarrow> seed_nodesH seed ids prompt h')"

definition inject_seedH :: "heap \<Rightarrow> hval \<Rightarrow> jsval option \<Rightarrow> heap \<times> (js_error + unit)" where
  "inject_seedH h processedWorkflow inputs =
     (case member inputs (str ''seed'') of
        Inl e \<Rightarrow> (h, Inl e)
      | Inr None \<Rightarrow> (h, Inr ())
      | Inr (Some sd) \<Rightarrow>
          if \<not> truthy sd then (h, Inr ())
          else
            (case memberH h (Some processedWorkflow) (str ''prompt'') of
               Inl e \<Rightarrow> (h, Inl e)
             | Inr None \<Rightarrow> (h, Inr ())
             | Inr (Some p) \<Rightarrow>
                 if \<not> truthyH p then (h, Inr ())
                 else seed_nodesH sd (keysH h p) p h))"

definition inject_by_nameH ::
  "heap \<Rightarrow> hval \<Rightarrow> jsstring \<Rightarrow> jsval option \<Rightarrow> heap \<times> warning list \<times> (js_error + unit)" where
  "inject_by_nameH h processedWorkflow workflowName inputs =
     (if workflowName = str ''fashion-sketch'' then
        (case set_node_textH h processedWorkflow (str ''6'') (fashion_sketch_text inputs) of
           (h1, Inl e) \<Rightarrow> (h1, [], Inl e)
         | (h1, Inr u) \<Rightarrow>
             (case set_node_textH h1 processedWorkflow (str ''7'') (negative_text inputs) of
                (h2, r) \<Rightarrow> (h2, [], r)))
      else if workflowName = str ''pattern-generation'' then
        (case set_node_textH h processedWorkflow (str ''6'') (patternPrompt inputs) of
           (h1, r) \<Rightarrow> (h1, [], r))
      else if workflowName = str ''model-visualization'' then
        (case set_node_textH h processedWorkflow (str ''6'') (modelPrompt inputs) of
           (h1, r) \<Rightarrow> (h1, [], r))
      else
        (case generic_inputsH h processedWorkflow inputs of
           (h1, r) \<Rightarrow> (h1, [UnknownWorkflow workflowName], r)))"

definition rethrow :: "js_error \<Rightarrow> js_error" where
  "rethrow e = Rethrown (str ''Falha ao processar par'' @ [226] @ str ''metros do workflow: '') e"

text \<open>
  \<open>injectWorkflowParameters\<close> on the heap: the heap afterwards, the warnings, and the
  value returned or the error raised.  The error of \<open>JSON.stringify\<close> is raised before
  the try block.
\<close>

definition injectWorkflowParametersH ::
  "heap \<Rightarrow> hval \<Rightarrow> jsstring \<Rightarrow> jsval option \<Rightarrow> heap \<times> warning list \<times> (js_error + hval)" where
  "injectWorkflowParametersH h workflow0 workflowName inputs =
     (case stringify h workflow0 of
        None \<Rightarrow> (h, [], Inl TypeError)
      | Some document \<Rightarrow>
          (case parseH document h of
             (processedWorkflow, h1) \<Rightarrow>
               (case inject_by_nameH h1 processedWorkflow workflowName inputs of
                  (h2, warnings, Inl e) \<Rightarrow> (h2, warnings, Inl (rethrow e))
                | (h2, warnings, Inr u) \<Rightarrow>
                    (case inject_seedH h2 processedWorkflow inputs of
                       (h3, Inl e) \<Rightarrow> (h3, warnings, Inl (rethrow e))
                     | (h3, Inr u') \<Rightarrow> (h3, warnings, Inr processedWorkflow)))))"

text \<open>
  The cells from an address on hold no reference to a cell before it: the part of the
  heap that a copy occupies is closed.
\<close>

fun ref_in :: "nat \<Rightarrow> nat \<Rightarrow> hval \<Rightarrow> bool" where
  "ref_in n m (HRef a) = (n \<le> a \<and> a < m)"
| "ref_in n m v = True"

fun cell_values :: "cell \<Rightarrow> hval list" where
  "cell_values (Fields kvs) = map snd kvs"
| "cell_values (Elements vs) = vs"

definition closed_from :: "nat \<Rightarrow> heap \<Rightarrow> bool" where
  "closed_from n h =
     (\<forall>a. n \<le> a \<and> a < length h \<longrightarrow> list_all (ref_in n (length h)) (cell_values (h ! a)))"

text \<open>
  What \<open>JSON.parse\<close> leaves behind: the heap before is a prefix of the heap after, the
  values returned refer to new cells only, and a closed part of the heap stays closed.
\<close>

definition parse_ok :: "heap \<Rightarrow> hval list \<Rightarrow> heap \<Rightarrow> bool" where
  "parse_ok h vs h' =
     (length h \<le> length h' \<and> take (length h) h' = h
      \<and> list_all (ref_in (length h) (length h')) vs
      \<and> (\<forall>n \<le> length h. closed_from n h \<longrightarrow> closed_from n h'))"

text \<open>
  What a step of the injector leaves behind: no cell is added, the cells before the
  address \<open>n\<close> are as they were, and the part from \<open>n\<close> on is closed.
\<close>

definition kept :: "nat \<Rightarrow> heap \<Rightarrow> heap \<Rightarrow> bool" where
  "kept n h h' = (length h' = length h \<and> take n h' = take n h \<and> closed_from n h')"

section \<open>Example backends and templates\<close>

definition pid :: jsstring where
  "pid = str ''p1''"

definition outputs1 :: jsval where
  "outputs1 =
     JObj [(str ''9'', JObj [(str ''images'',
              JArr [JObj [(str ''filename'', JStr (str ''a.png'')), (str ''subfolder'', JStr []),
                          (str ''type'', JStr (str ''output''))],
                    JObj [(str ''filename'', JStr (str ''b.png'')), (str ''subfolder'', JStr []),
                          (str ''type'', JStr (str ''output''))]])]),
           (str ''12'', JObj [(str ''text'', JArr [JStr (str ''done'')])])]"

text \<open>A history with the entry of the job: running, completed, and failed.\<close>

definition running_body :: response where
  "running_body =
     Body (JObj [(pid, JObj [(str ''status'', JObj [(str ''completed'', JBool False)])])])"

definition completed_body :: response where
  "completed_body =
     Body (JObj [(pid, JObj [(str ''status'', JObj [(str ''completed'', JBool True)]),
                             (str ''outputs'', outputs1)])])"

definition error_body :: response where
  "error_body =
     Body (JObj [(pid, JObj [(str ''status'',
             JObj [(str ''status_str'', JStr (str ''error'')), (str ''completed'', JBool False),
                   (str ''messages'',
                    JArr [JArr [JStr (str ''execution_error''), JStr (str ''boom'')]])])])])"

text \<open>Running for the first 119 queries, completed on the 120th.\<close>

definition slow_backend :: "nat \<Rightarrow> response" where
  "slow_backend i = (if i < 119 then running_body else completed_body)"

definition stuck_backend :: "nat \<Rightarrow> response" where
  "stuck_backend i = running_body"

text \<open>An error status on the first query and a failed query on the sixth, running otherwise.\<close>

definition flaky_backend :: "nat \<Rightarrow> response" where
  "flaky_backend i = (if i = 0 then error_body else if i = 5 then NotOk 503 else running_body)"

text \<open>Running for the first two queries, completed on the third.\<close>

definition brief_backend :: "nat \<Rightarrow> response" where
  "brief_backend i = (if i < 2 then running_body else completed_body)"

text \<open>Every query is answered with the status 503.\<close>

definition failing_backend :: "nat \<Rightarrow> response" where
  "failing_backend i = NotOk 503"

text \<open>
  Running at the queries 0, 1, 59, 60 and 118, completed at the query 119, and the
  status 503 at every other query.
\<close>

definition patchy_backend :: "nat \<Rightarrow> response" where
  "patchy_backend i =
     (if i = 119 then completed_body
      else if i = 0 \<or> i = 1 \<or> i = 59 \<or> i = 60 \<or> i = 118 then running_body
      else NotOk 503)"

text \<open>An error status on the first query, completed from the second on.\<close>

definition error_then_done :: "nat \<Rightarrow> response" where
  "error_then_done i = (if i = 0 then error_body else completed_body)"

definition template1 :: jsval where
  "template1 =
     JObj [(str ''prompt'', JObj [
       (str ''3'', JObj [(str ''class_type'', JStr (str ''KSampler'')),
                         (str ''inputs'', JObj [(str ''seed'', JNum 42), (str ''steps'', JNum 20)])]),
       (str ''6'', JObj [(str ''class_type'', JStr (str ''CLIPTextEncode'')),
                         (str ''inputs'', JObj [(str ''text'', JStr (str ''x''))])])])]"

definition worker_env1 :: worker_env where
  "worker_env1 =
     \<lparr> workflow_file = Loaded template1,
       submitted = Accepted (JObj [(str ''prompt_id'', JStr pid)]),
       history_responses = patchy_backend,
       wall_clock = 5000 \<rparr>"
text \<open>The template of the examples, loaded into an empty heap, and its address.\<close>

definition heap1 :: heap where
  "heap1 = snd (parseH template1 [])"

definition workflow1 :: hval where
  "workflow1 = fst (parseH template1 [])"

definition inputs1 :: jsval where
  "inputs1 = JObj [(str ''seed'', JNum 7), (str ''prompt'', JArr [JStr (str ''a'')])]"

section \<open>Example data\<close>

definition payload0 :: job_data where
  "payload0 =
     \<lparr> workflow_name = str ''fashion-sketch'', data_inputs = None, user_id = None,
       data_timestamp = str ''t'', data_priority = None, requeue_info = None \<rparr>"

text \<open>A failed job that was never resubmitted, one hour old at the instant 3600000.\<close>

definition job_a :: job where
  "job_a =
     \<lparr> job_id = str ''a'', job_name = str ''generate-comfyui-image'',
       data = Some payload0, timestamp = 0, failedReason = Some (str ''timeout'') \<rparr>"

text \<open>
  The job that the resubmission of \<open>job_a\<close> at the instant 1000 adds to the queue, after
  it has failed in its turn.
\<close>

definition hop1 :: job where
  "hop1 =
     \<lparr> job_id = str ''requeue-a-1000'', job_name = str ''generate-comfyui-image'',
       data = Some (payload0 \<lparr> requeue_info := Some
                \<lparr> original_job_id = str ''a'', requeue_count = 1, requeue_timestamp = 1000,
                  original_failure_reason = Some (str ''timeout'') \<rparr> \<rparr>),
       timestamp = 1000, failedReason = Some (str ''timeout'') \<rparr>"

definition env_at :: "int \<Rightarrow> sweep_env" where
  "env_at t =
     \<lparr> clock = (\<lambda>i. t), getFailed_error = None,
       add_fails = (\<lambda>i. False), remove_fails = (\<lambda>i. False) \<rparr>"


text \<open>The default of the parameter \<open>options\<close>, the empty object.\<close>

definition no_options :: passed_options where
  "no_options =
     \<lparr> passed_maxAge = None, passed_maxRetries = None, passed_priorityBoost = None,
       passed_delayBeforeRequeue = None \<rparr>"

definition sweep0 :: sweep where
  "sweep0 =
     \<lparr> reads = 0, queue = \<lparr> failed = [job_a], added = [] \<rparr>,
       requeuedCount = 0, skippedCount = 0 \<rparr>"

section \<open>Properties of the requeue classifier\<close>

lemma starts_with_iff: "starts_with s p \<longleftrightarrow> (\<exists>b. s = p @ b)"
  by (induction s p rule: starts_with.induct) auto

text \<open>\<open>js_includes\<close> is substring containment.\<close>

lemma js_includes_iff: "js_includes s p \<longleftrightarrow> (\<exists>a b. s = a @ p @ b)"
proof (induction s)
  case Nil
  then show ?case by auto
next
  case (Cons c cs)
  show ?case
  proof
    assume "js_includes (c # cs) p"
    then consider "starts_with (c # cs) p" | "js_includes cs p" by auto
    then show "\<exists>a b. c # cs = a @ p @ b"
    proof cases
      case 1
      then obtain b where "c # cs = p @ b" by (auto simp: starts_with_iff)
      then have "c # cs = [] @ p @ b" by simp
      then show ?thesis by blast
    next
      case 2
      then obtain a b where "cs = a @ p @ b" using Cons.IH by auto
      then have "c # cs = (c # a) @ p @ b" by simp
      then show ?thesis by blast
    qed
  next
    assume "\<exists>a b. c # cs = a @ p @ b"
    then obtain a b where ab: "c # cs = a @ p @ b" by blast
    show "js_includes (c # cs) p"
    proof (cases a)
      case Nil
      with ab have "starts_with (c # cs) p" by (auto simp: starts_with_iff)
      then show ?thesis by simp
    next
      case (Cons x xs)
      with ab have "cs = xs @ p @ b" by simp
      then have "js_includes cs p" using Cons.IH by blast
      then show ?thesis by simp
    qed
  qed
qed

lemma list_ex_contains_any:
  "list_ex (\<lambda>e. js_includes (lc t) (lc e)) ps = contains_any lc t ps"
  by (simp add: contains_any_def list_ex_iff)

text \<open>
  Without options the sweep runs under the defaults; an option passed with the value
  undefined replaces its default.
\<close>

lemma spread_no_options: "spread defaultOptions no_options = defaultOptions"
  by (simp add: spread_def or_else_def no_options_def)

lemma spread_undefined:
  "maxAge (spread defaultOptions (no_options \<lparr> passed_maxAge := Some None \<rparr>)) = None"
  by (simp add: spread_def or_else_def no_options_def)

lemmas sweep_eval =
  requeueFailedJobs_def requeue_step_def shouldRequeueJob_def newJobOptions_def requeue_jobData_def
  skip_def spread_def or_else_def defaultOptions_def gt_num_def ge_num_def temporaryErrors_def
  permanentErrors_def str_def lower_ascii_def show_int_def Let_def

text \<open>
  Claim C1.  For a failed job with a payload, evaluated under a maximum age and a
  maximum number of retries, the verdict of \<open>shouldRequeueJob\<close> is the decision of the
  specification's order, first match winning: rejected when the age exceeds the maximum
  age; otherwise rejected when the prior resubmission count has reached the maximum;
  otherwise accepted when the lower-cased reason contains a lower-cased temporary signal;
  otherwise rejected when it contains a lower-cased permanent signal; otherwise accepted
  exactly when the count is 0.  In particular a job older than the maximum age is
  rejected whatever its reason text matches.
\<close>

theorem classifier_decision_order:
  assumes "maxAge options = Some a" and "maxRetries options = Some r" and "data job = Some d"
  shows "requeue (shouldRequeueJob lc now job options)
           = decision lc (now - timestamp job) a (prior_count d) r (reason_text job)
         \<and> (now - timestamp job > a \<and> contains_any lc (reason_text job) temporaryErrors
              \<longrightarrow> \<not> requeue (shouldRequeueJob lc now job options))"
  using assms
  by (simp add: shouldRequeueJob_def decision_def list_ex_contains_any prior_count_def
      reason_text_def gt_num_def ge_num_def Let_def)

theorem classifier_decision_order_witness:
  "maxAge defaultOptions = Some 86400000 \<and> maxRetries defaultOptions = Some 2
   \<and> data job_a = Some payload0
   \<and> 90000000 - timestamp job_a > 86400000
   \<and> contains_any lower_ascii (reason_text job_a) temporaryErrors
   \<and> \<not> requeue (shouldRequeueJob lower_ascii 90000000 job_a defaultOptions)
   \<and> requeue (shouldRequeueJob lower_ascii 3600000 job_a defaultOptions)"
proof -
  have a: "maxAge defaultOptions = Some 86400000" by (simp add: defaultOptions_def)
  have r: "maxRetries defaultOptions = Some 2" by (simp add: defaultOptions_def)
  have d: "data job_a = Some payload0" by (simp add: job_a_def)
  have c: "contains_any lower_ascii (reason_text job_a) temporaryErrors"
    by (simp add: contains_any_def reason_text_def job_a_def temporaryErrors_def str_def
        lower_ascii_def)
  have old: "90000000 - timestamp job_a > 86400000" by (simp add: job_a_def)
  have young: "\<not> 3600000 - timestamp job_a > 86400000" by (simp add: job_a_def)
  have p: "prior_count payload0 = 0" by (simp add: prior_count_def payload0_def)
  show ?thesis
    using classifier_decision_order [OF a r d, of lower_ascii 90000000]
      classifier_decision_order [OF a r d, of lower_ascii 3600000] a r d c old young p
    by (simp add: decision_def)
qed

text \<open>
  Claim C3, as the code has it.  Each time the sweep resubmits a failed job (the verdict
  is to requeue and \<open>add\<close> does not raise), the payload of the new job is the payload of
  the failed job with a lineage block whose resubmission count is the prior count of the
  failed job (0 when absent) plus 1, and whose origin job identifier is the identifier
  of the failed job that is being resubmitted.
\<close>

theorem resubmission_lineage:
  "requeue (shouldRequeueJob lc (clock env (reads s)) job opts)
     \<and> \<not> add_fails env (jobId (newJobOptions opts job (clock env (reads s + 1))))
   \<longrightarrow> (\<exists>d ri. data job = Some d
          \<and> added (queue (requeue_step lc env opts s job))
              = added (queue s) @ [(job_name job, d \<lparr> requeue_info := Some ri \<rparr>,
                                    newJobOptions opts job (clock env (reads s + 1)))]
          \<and> requeue_count ri = prior_count d + 1
          \<and> original_job_id ri = job_id job)"
proof (intro impI, elim conjE)
  assume rq: "requeue (shouldRequeueJob lc (clock env (reads s)) job opts)"
    and ok: "\<not> add_fails env (jobId (newJobOptions opts job (clock env (reads s + 1))))"
  from rq obtain d where d: "data job = Some d"
    by (cases "data job") (auto simp: shouldRequeueJob_def Let_def split: if_splits)
  let ?ri = "\<lparr> original_job_id = job_id job, requeue_count = prior_count d + 1,
               requeue_timestamp = clock env (reads s + 2),
               original_failure_reason = failedReason job \<rparr>"
  have "added (queue (requeue_step lc env opts s job))
          = added (queue s) @ [(job_name job, d \<lparr> requeue_info := Some ?ri \<rparr>,
                                newJobOptions opts job (clock env (reads s + 1)))]"
    using rq ok d by (simp add: requeue_step_def Let_def skip_def requeue_jobData_def prior_count_def)
  then show "\<exists>d ri. data job = Some d
          \<and> added (queue (requeue_step lc env opts s job))
              = added (queue s) @ [(job_name job, d \<lparr> requeue_info := Some ri \<rparr>,
                                    newJobOptions opts job (clock env (reads s + 1)))]
          \<and> requeue_count ri = prior_count d + 1
          \<and> original_job_id ri = job_id job"
    using d by (intro exI[of _ d] exI[of _ ?ri]) simp
qed

theorem resubmission_lineage_witness:
  "requeue (shouldRequeueJob lower_ascii (clock (env_at 1000) (reads sweep0)) job_a defaultOptions)
   \<and> \<not> add_fails (env_at 1000)
          (jobId (newJobOptions defaultOptions job_a (clock (env_at 1000) (reads sweep0 + 1))))
   \<and> (\<exists>d ri. data job_a = Some d
          \<and> added (queue (requeue_step lower_ascii (env_at 1000) defaultOptions sweep0 job_a))
              = added (queue sweep0) @ [(job_name job_a, d \<lparr> requeue_info := Some ri \<rparr>,
                   newJobOptions defaultOptions job_a (clock (env_at 1000) (reads sweep0 + 1)))]
          \<and> requeue_count ri = prior_count d + 1
          \<and> original_job_id ri = job_id job_a)"
proof -
  have rq: "requeue (shouldRequeueJob lower_ascii (clock (env_at 1000) (reads sweep0)) job_a
              defaultOptions)"
    by (simp add: sweep_eval env_at_def sweep0_def job_a_def payload0_def)
  have ok: "\<not> add_fails (env_at 1000)
          (jobId (newJobOptions defaultOptions job_a (clock (env_at 1000) (reads sweep0 + 1))))"
    by (simp add: env_at_def)
  show ?thesis
    using resubmission_lineage [of lower_ascii "env_at 1000" sweep0 job_a defaultOptions] rq ok
    by blast
qed

text \<open>
  Claim C3, as stated, fails on the second hop.  The failed job \<open>hop1\<close> is the
  resubmission of the job \<open>a\<close> and carries the origin \<open>a\<close>; the sweep that resubmits it
  writes the identifier of \<open>hop1\<close> itself as the origin of the new job, with the count 2.
\<close>

theorem origin_reset_counterexample:
  "requeueFailedJobs lower_ascii (env_at 2000) no_options \<lparr> failed = [hop1], added = [] \<rparr>
     = Inr (\<lparr> total = 1, requeued = 1, skipped = 0 \<rparr>,
            \<lparr> failed = [],
              added = [(str ''generate-comfyui-image'',
                        payload0 \<lparr> requeue_info := Some
                          \<lparr> original_job_id = str ''requeue-a-1000'', requeue_count = 2,
                            requeue_timestamp = 2000,
                            original_failure_reason = Some (str ''timeout'') \<rparr> \<rparr>,
                        \<lparr> jobId = str ''requeue-requeue-a-1000-2000'', job_attempts = 3,
                          priority = Some 1, delay = Some 30000 \<rparr>)] \<rparr>)
   \<and> map_option original_job_id (Option.bind (data hop1) requeue_info) = Some (str ''a'')
   \<and> str ''requeue-a-1000'' \<noteq> str ''a''"
  by (simp add: sweep_eval env_at_def no_options_def hop1_def payload0_def)

text \<open>The first hop: the sweep at the instant 1000 turns the job \<open>a\<close> into \<open>hop1\<close>.\<close>

lemma first_hop:
  "requeueFailedJobs lower_ascii (env_at 1000) no_options \<lparr> failed = [job_a], added = [] \<rparr>
     = Inr (\<lparr> total = 1, requeued = 1, skipped = 0 \<rparr>,
            \<lparr> failed = [],
              added = [(job_name hop1, payload0 \<lparr> requeue_info := Some
                          \<lparr> original_job_id = str ''a'', requeue_count = 1,
                            requeue_timestamp = 1000,
                            original_failure_reason = Some (str ''timeout'') \<rparr> \<rparr>,
                        \<lparr> jobId = job_id hop1, job_attempts = 3, priority = Some 1,
                          delay = Some 30000 \<rparr>)] \<rparr>)"
  by (simp add: sweep_eval env_at_def no_options_def job_a_def hop1_def payload0_def)






section \<open>Properties of the double-precision arithmetic\<close>

declare bit_length.simps [simp del]

lemma bit_length_0 [simp]: "bit_length 0 = 0"
  by (simp add: bit_length.simps)

lemma bit_length_numeral [simp]:
  "bit_length (numeral k) = Suc (bit_length (numeral k div 2))"
  by (subst bit_length.simps) simp

lemma bit_length_1 [simp]: "bit_length (Suc 0) = 1"
  by (simp add: bit_length.simps)

lemma floor_rat_numeral [simp]:
  "\<lfloor>numeral a / numeral b :: rat\<rfloor> = numeral a div numeral b"
  by (metis floor_divide_of_int_eq of_int_numeral)

lemma floor_rat_one [simp]:
  "\<lfloor>1 / numeral b :: rat\<rfloor> = 1 div numeral b"
  by (metis floor_divide_of_int_eq of_int_numeral of_int_1)

lemma ceiling_rat_numeral [simp]:
  "\<lceil>numeral a / numeral b :: rat\<rceil> = - (- numeral a div numeral b)"
  by (metis ceiling_divide_eq_div of_int_numeral)

lemma ceiling_rat_one [simp]:
  "\<lceil>1 / numeral b :: rat\<rceil> = - (- 1 div numeral b)"
  by (metis ceiling_divide_eq_div of_int_numeral of_int_1)

lemmas double_eval = to_double_def exponent_def round_half_even_def Let_def

lemma bit_length_bounds:
  "0 < n \<Longrightarrow> 2 ^ (bit_length n - 1) \<le> n \<and> n < 2 ^ bit_length n"
proof (induction n rule: bit_length.induct)
  case (1 n)
  show ?case
  proof (cases "n div 2 = 0")
    case True
    then have "n = 1" using "1.prems" by (simp add: div_eq_0_iff)
    then show ?thesis by simp
  next
    case False
    then have ih: "2 ^ (bit_length (n div 2) - 1) \<le> n div 2" "n div 2 < 2 ^ bit_length (n div 2)"
      using "1.IH" "1.prems" by simp_all
    have pos: "0 < bit_length (n div 2)"
      using False by (subst bit_length.simps) simp
    have bl: "bit_length n = Suc (bit_length (n div 2))"
      using "1.prems" by (subst bit_length.simps) simp
    have "2 * 2 ^ (bit_length (n div 2) - 1) \<le> n" using ih(1) by simp
    moreover have "2 * 2 ^ (bit_length (n div 2) - 1) = (2 :: nat) ^ bit_length (n div 2)"
      using pos by (cases "bit_length (n div 2)") simp_all
    moreover have "n < 2 * 2 ^ bit_length (n div 2)" using ih(2) by simp
    ultimately show ?thesis using bl by simp
  qed
qed

lemma pow2_le_of_nat: "2 ^ k \<le> n \<Longrightarrow> (2 :: rat) ^ k \<le> rat_of_nat n"
proof -
  assume "2 ^ k \<le> n"
  then have "rat_of_nat (2 ^ k) \<le> rat_of_nat n" by (rule of_nat_mono)
  then show ?thesis by simp
qed

lemma of_nat_less_pow2: "n < 2 ^ k \<Longrightarrow> rat_of_nat n + 1 \<le> 2 ^ k"
proof -
  assume "n < 2 ^ k"
  then have "Suc n \<le> 2 ^ k" by simp
  then have "rat_of_nat (Suc n) \<le> rat_of_nat (2 ^ k)" by (rule of_nat_mono)
  then show ?thesis by simp
qed

lemma bit_length_pos: "0 < n \<Longrightarrow> 0 < bit_length n"
  by (subst bit_length.simps) simp

lemma exponent_bounds:
  assumes "0 < x"
  shows "2 powi (exponent x) \<le> x \<and> x < 2 powi (exponent x + 1)"
proof (cases "1 \<le> x")
  case True
  define n where "n = nat \<lfloor>x\<rfloor>"
  have fl: "1 \<le> \<lfloor>x\<rfloor>" using True by (simp add: le_floor_iff)
  have n0: "0 < n" using fl by (simp add: n_def)
  have nn: "rat_of_nat n = of_int \<lfloor>x\<rfloor>" using fl by (simp add: n_def)
  have n1: "rat_of_nat n \<le> x" unfolding nn by (rule of_int_floor_le)
  have n2: "x < rat_of_nat n + 1" unfolding nn using floor_correct[of x] by simp
  have e: "exponent x = int (bit_length n) - 1"
    using True by (simp add: exponent_def n_def)
  have pos: "0 < bit_length n" using n0 by (rule bit_length_pos)
  have e1: "exponent x = int (bit_length n - 1)" using e pos by simp
  have e2: "exponent x + 1 = int (bit_length n)" using e by simp
  have lo: "(2 :: rat) ^ (bit_length n - 1) \<le> x"
    using pow2_le_of_nat[OF bit_length_bounds[OF n0, THEN conjunct1]] n1 by (rule order_trans)
  have hi: "x < (2 :: rat) ^ bit_length n"
    using n2 of_nat_less_pow2[OF bit_length_bounds[OF n0, THEN conjunct2]]
    by (rule less_le_trans)
  have p1: "(2 :: rat) powi (exponent x) = 2 ^ (bit_length n - 1)"
    unfolding e1 by (rule power_int_of_nat)
  have p2: "(2 :: rat) powi (exponent x + 1) = 2 ^ bit_length n"
    unfolding e2 by (rule power_int_of_nat)
  show ?thesis unfolding p1 p2 using lo hi by (rule conjI)
next
  case False
  define y where "y = 1 / x"
  have y: "1 < y" "0 < y" "x = 1 / y" using False assms by (simp_all add: y_def)
  define m where "m = nat (\<lceil>y\<rceil> - 1)"
  have c: "2 \<le> \<lceil>y\<rceil>" using y(1) by linarith
  have m0: "0 < m" using c by (simp add: m_def)
  have mm: "rat_of_nat m = of_int \<lceil>y\<rceil> - 1" using c by (simp add: m_def)
  have m1: "rat_of_nat m < y" unfolding mm using ceiling_correct[of y] by simp
  have m2: "y \<le> rat_of_nat m + 1" unfolding mm using ceiling_correct[of y] by simp
  have e: "exponent x = - int (bit_length m)"
    using False by (simp add: exponent_def m_def y_def)
  have pos: "0 < bit_length m" using m0 by (rule bit_length_pos)
  have lo: "(2 :: rat) ^ (bit_length m - 1) < y"
    using pow2_le_of_nat[OF bit_length_bounds[OF m0, THEN conjunct1]] m1 by (rule le_less_trans)
  have hi: "y \<le> 2 ^ bit_length m"
    using m2 of_nat_less_pow2[OF bit_length_bounds[OF m0, THEN conjunct2]]
    by (rule order_trans)
  have p1: "(2 :: rat) powi (exponent x) = 1 / 2 ^ bit_length m"
    unfolding e by (simp add: power_int_minus_divide)
  have e2: "exponent x + 1 = - int (bit_length m - 1)" using e pos by simp
  have p2: "(2 :: rat) powi (exponent x + 1) = 1 / 2 ^ (bit_length m - 1)"
    unfolding e2 by (simp add: power_int_minus_divide)
  have a: "1 / 2 ^ bit_length m \<le> x"
    unfolding y(3) using hi y(2) by (simp add: frac_le)
  have b: "x < 1 / 2 ^ (bit_length m - 1)"
    unfolding y(3) using lo by (simp add: frac_less2)
  show ?thesis unfolding p1 p2 using a b by (rule conjI)
qed

lemma exponent_mono:
  assumes "0 < x" and "x \<le> y"
  shows "exponent x \<le> exponent y"
proof (rule ccontr)
  assume "\<not> exponent x \<le> exponent y"
  then have "exponent y + 1 \<le> exponent x" by simp
  then have "(2 :: rat) powi (exponent y + 1) \<le> 2 powi (exponent x)"
    by (intro power_int_increasing) simp_all
  moreover have "y < 2 powi (exponent y + 1)" using exponent_bounds[of y] assms by simp
  moreover have "2 powi (exponent x) \<le> x" using exponent_bounds[of x] assms by simp
  ultimately show False using assms(2) by simp
qed

lemma round_half_even_int [simp]: "round_half_even (of_int n) = n"
  by (simp add: round_half_even_def)

lemma round_half_even_mono:
  assumes "x \<le> y"
  shows "round_half_even x \<le> round_half_even y"
proof (cases "\<lfloor>x\<rfloor> = \<lfloor>y\<rfloor>")
  case True
  then show ?thesis using assms by (auto simp: round_half_even_def Let_def)
next
  case False
  then have "\<lfloor>x\<rfloor> + 1 \<le> \<lfloor>y\<rfloor>" using floor_mono[OF assms] by simp
  moreover have "round_half_even x \<le> \<lfloor>x\<rfloor> + 1" by (simp add: round_half_even_def Let_def)
  moreover have "\<lfloor>y\<rfloor> \<le> round_half_even y" by (simp add: round_half_even_def Let_def)
  ultimately show ?thesis by simp
qed

lemma round_half_even_ge: "of_int n \<le> x \<Longrightarrow> n \<le> round_half_even x"
  using round_half_even_mono[of "of_int n" x] by simp

lemma round_half_even_le: "x \<le> of_int n \<Longrightarrow> round_half_even x \<le> n"
  using round_half_even_mono[of x "of_int n"] by simp

text \<open>On the positive numbers: the value lies in the closed binade of its argument.\<close>

lemma to_double_pos:
  assumes "0 < x"
  shows "to_double x
           = of_int (round_half_even (x / 2 powi (max (exponent x) (- 1022) - 52)))
               * 2 powi (max (exponent x) (- 1022) - 52)"
  using assms by (simp add: to_double_def Let_def)

lemma to_double_upper:
  assumes "0 < x"
  shows "to_double x \<le> 2 powi (max (exponent x) (- 1022) + 1)"
proof -
  define e where "e = max (exponent x) (- 1022)"
  define u :: rat where "u = 2 powi (e - 52)"
  have u: "0 < u" by (simp add: u_def)
  have td: "to_double x = of_int (round_half_even (x / u)) * u"
    unfolding u_def e_def by (rule to_double_pos[OF assms])
  have "x < 2 powi (exponent x + 1)" using exponent_bounds[OF assms] by simp
  also have "\<dots> \<le> 2 powi (e + 1)" by (intro power_int_increasing) (simp_all add: e_def)
  finally have x: "x \<le> 2 powi (e + 1)" by simp
  have "e + 1 = 53 + (e - 52)" by simp
  then have split: "(2 :: rat) powi (e + 1) = 2 powi 53 * u"
    unfolding u_def by (metis power_int_add zero_neq_numeral)
  have "x / u \<le> 2 powi 53" using x u unfolding split by (simp add: pos_divide_le_eq)
  then have "x / u \<le> of_int (2 ^ 53)" by simp
  then have "round_half_even (x / u) \<le> 2 ^ 53" by (rule round_half_even_le)
  then have "rat_of_int (round_half_even (x / u)) \<le> rat_of_int (2 ^ 53)"
    by (simp only: of_int_le_iff)
  then have "of_int (round_half_even (x / u)) * u \<le> 2 powi 53 * u"
    using u by simp
  then show ?thesis unfolding td e_def[symmetric] split .
qed

lemma to_double_lower:
  assumes "0 < x" and "- 1022 \<le> exponent x"
  shows "2 powi (exponent x) \<le> to_double x"
proof -
  define u :: rat where "u = 2 powi (exponent x - 52)"
  have u: "0 < u" by (simp add: u_def)
  have m: "max (exponent x) (- 1022) = exponent x" using assms(2) by simp
  have td: "to_double x = of_int (round_half_even (x / u)) * u"
    unfolding u_def using to_double_pos[OF assms(1)] unfolding m .
  have x: "2 powi (exponent x) \<le> x" using exponent_bounds[OF assms(1)] by simp
  have "exponent x = 52 + (exponent x - 52)" by simp
  then have split: "(2 :: rat) powi (exponent x) = 2 powi 52 * u"
    unfolding u_def by (metis power_int_add zero_neq_numeral)
  have "2 powi 52 \<le> x / u" using x u unfolding split by (simp add: pos_le_divide_eq)
  then have "of_int (2 ^ 52) \<le> x / u" by simp
  then have "2 ^ 52 \<le> round_half_even (x / u)" by (rule round_half_even_ge)
  then have "rat_of_int (2 ^ 52) \<le> rat_of_int (round_half_even (x / u))"
    by (simp only: of_int_le_iff)
  then have "2 powi 52 * u \<le> of_int (round_half_even (x / u)) * u"
    using u by simp
  then show ?thesis unfolding td split .
qed

lemma to_double_mono_pos:
  assumes "0 < x" and "x \<le> y"
  shows "to_double x \<le> to_double y"
proof -
  have y: "0 < y" using assms by simp
  define ex where "ex = max (exponent x) (- 1022)"
  define ey where "ey = max (exponent y) (- 1022)"
  have le: "ex \<le> ey" using exponent_mono[OF assms] by (simp add: ex_def ey_def)
  show ?thesis
  proof (cases "ex = ey")
    case True
    define u :: rat where "u = 2 powi (ex - 52)"
    have u: "0 < u" by (simp add: u_def)
    have "x / u \<le> y / u" using assms(2) u by (simp add: divide_right_mono)
    then have "round_half_even (x / u) \<le> round_half_even (y / u)" by (rule round_half_even_mono)
    then have "rat_of_int (round_half_even (x / u)) \<le> rat_of_int (round_half_even (y / u))"
      by (simp only: of_int_le_iff)
    then have "of_int (round_half_even (x / u)) * u \<le> of_int (round_half_even (y / u)) * u"
      using u by simp
    then show ?thesis
      unfolding to_double_pos[OF assms(1)] to_double_pos[OF y] ex_def[symmetric]
        ey_def[symmetric] True[symmetric] u_def[symmetric] .
  next
    case False
    then have lt: "ex + 1 \<le> ey" using le by simp
    then have n: "- 1022 \<le> exponent y" "ey = exponent y" by (simp_all add: ex_def ey_def)
    have "to_double x \<le> 2 powi (ex + 1)" unfolding ex_def by (rule to_double_upper[OF assms(1)])
    also have "\<dots> \<le> 2 powi ey" using lt by (intro power_int_increasing) simp_all
    also have "\<dots> \<le> to_double y" unfolding n(2) by (rule to_double_lower[OF y n(1)])
    finally show ?thesis .
  qed
qed

lemma to_double_0 [simp]: "to_double 0 = 0"
  by (simp add: to_double_def)

lemma to_double_nonneg: "0 \<le> x \<Longrightarrow> 0 \<le> to_double x"
  by (simp add: to_double_def Let_def round_half_even_def sgn_if)

lemma to_double_mono:
  assumes "0 \<le> x" and "x \<le> y"
  shows "to_double x \<le> to_double y"
proof (cases "x = 0")
  case True
  then show ?thesis using to_double_nonneg[of y] assms by simp
next
  case False
  then show ?thesis using assms by (intro to_double_mono_pos) simp_all
qed

lemma to_double_50: "to_double 50 = 50"
  by (simp add: double_eval)

lemma round_half_even_error: "\<bar>of_int (round_half_even x) - x\<bar> \<le> 1 / 2"
proof -
  have "of_int \<lfloor>x\<rfloor> \<le> x" "x < of_int \<lfloor>x\<rfloor> + 1" using floor_correct[of x] by simp_all
  then show ?thesis by (auto simp: round_half_even_def Let_def abs_le_iff)
qed

lemma to_double_error:
  assumes "0 < x"
  shows "\<bar>to_double x - x\<bar> \<le> 2 powi (max (exponent x) (- 1022) - 53)"
proof -
  define e where "e = max (exponent x) (- 1022)"
  define u :: rat where "u = 2 powi (e - 52)"
  have u: "0 < u" by (simp add: u_def)
  have td: "to_double x = of_int (round_half_even (x / u)) * u"
    unfolding u_def e_def by (rule to_double_pos[OF assms])
  have "e - 52 = 1 + (e - 53)" by simp
  then have half: "u = 2 * 2 powi (e - 53)"
    unfolding u_def by (metis power_int_add zero_neq_numeral power_int_1_right)
  have "to_double x - x = (of_int (round_half_even (x / u)) - x / u) * u"
    using u by (simp add: td left_diff_distrib)
  then have "\<bar>to_double x - x\<bar> = \<bar>of_int (round_half_even (x / u)) - x / u\<bar> * u"
    using u by (simp add: abs_mult)
  also have "\<dots> \<le> (1 / 2) * u"
    using u round_half_even_error[of "x / u"] by (intro mult_right_mono) simp_all
  also have "\<dots> = 2 powi (e - 53)" by (simp add: half)
  finally show ?thesis unfolding e_def .
qed

lemma exponent_less:
  assumes "0 < x" and "x < 2 powi k"
  shows "exponent x < k"
proof (rule ccontr)
  assume "\<not> exponent x < k"
  then have "(2 :: rat) powi k \<le> 2 powi (exponent x)"
    by (intro power_int_increasing) simp_all
  moreover have "2 powi (exponent x) \<le> x" using exponent_bounds[OF assms(1)] by simp
  ultimately show False using assms(2) by simp
qed

text \<open>Below \<open>2\<^sup>k\<close> the rounding moves a number by at most \<open>2\<^sup>k\<^sup>-\<^sup>5\<^sup>4\<close>.\<close>

lemma to_double_error_below:
  assumes "0 \<le> x" and "x < 2 powi k" and "- 1022 < k"
  shows "\<bar>to_double x - x\<bar> \<le> 2 powi (k - 54)"
proof (cases "x = 0")
  case True
  then show ?thesis by simp
next
  case False
  then have x: "0 < x" using assms(1) by simp
  have "max (exponent x) (- 1022) - 53 \<le> k - 54"
    using exponent_less[OF x assms(2)] assms(3) by simp
  then have "(2 :: rat) powi (max (exponent x) (- 1022) - 53) \<le> 2 powi (k - 54)"
    by (intro power_int_increasing) simp_all
  then show ?thesis using to_double_error[OF x] by simp
qed

lemma to_double_1: "to_double 1 = 1"
  by (simp add: double_eval)

lemma to_double_40: "to_double 40 = 40"
  by (simp add: double_eval)

section \<open>Properties of the completion poller\<close>

lemma fst_emit [simp]: "fst (emit evs r) = evs @ fst r"
  by (simp add: emit_def)

lemma snd_emit [simp]: "snd (emit evs r) = snd r"
  by (simp add: emit_def)

lemma queries_append [simp]: "queries (xs @ ys) = queries xs @ queries ys"
  by (induction xs rule: queries.induct) simp_all

lemma sleeps_append [simp]: "sleeps (xs @ ys) = sleeps xs @ sleeps ys"
  by (induction xs rule: sleeps.induct) simp_all

lemma progress_values_append [simp]:
  "progress_values (xs @ ys) = progress_values xs @ progress_values ys"
  by (induction xs rule: progress_values.induct) simp_all

lemma progress_values_warnings [simp]: "progress_values (map Warning ws) = []"
  by (induction ws) simp_all

lemmas js_eval =
  member_def opt_member_def truthy_opt_def and_then_def or_literal_def str_def array_index_def
  is_digit_def

text \<open>What the three outcomes of a query stand for.\<close>

lemma try_query_completed:
  assumes "history \<noteq> JNull" and "own history promptId = Some jobData" and "truthy jobData"
    and "own jobData (str ''status'') = Some status" and "truthy status"
    and "truthy_opt (own status (str ''completed''))"
  shows "try_query (Body history) promptId attempts = Completed (own jobData (str ''outputs''))"
  using assms by (cases history) (simp_all add: try_query_def member_def)

lemma try_query_error_status:
  assumes "history \<noteq> JNull" and "own history promptId = Some jobData" and "truthy jobData"
    and "own jobData (str ''status'') = Some status" and "truthy status"
    and "\<not> truthy_opt (own status (str ''completed''))"
    and "own status (str ''status_str'') = Some (JStr (str ''error''))"
  shows "try_query (Body history) promptId attempts
           = Thrown (Error (str ''ComfyUI Error: '' @ to_string (errorMsg status)))"
  using assms by (cases history) (simp_all add: try_query_def member_def)

lemma try_query_pending:
  "try_query r p a = Pending evs \<Longrightarrow> evs = [] \<or> evs = [Progress (polling_progress a)]"
  by (auto simp: try_query_def split: response.splits sum.splits option.splits if_splits)

declare wait_loop.simps [simp del]

lemma wait_loop_done:
  "\<not> attempts < maxAttempts \<Longrightarrow> wait_loop responses promptId attempts = ([], Inl timeout_error)"
  by (simp add: wait_loop.simps)

lemma wait_loop_completed:
  "attempts < maxAttempts \<Longrightarrow> try_query (responses attempts) promptId attempts = Completed out
   \<Longrightarrow> wait_loop responses promptId attempts = ([Query attempts], Inr out)"
  by (simp add: wait_loop.simps)

lemma wait_loop_pending:
  "attempts < maxAttempts \<Longrightarrow> try_query (responses attempts) promptId attempts = Pending evs
   \<Longrightarrow> wait_loop responses promptId attempts
       = emit (Query attempts # evs @ [Sleep 5000]) (wait_loop responses promptId (attempts + 1))"
  by (simp add: wait_loop.simps[of responses promptId attempts])

lemma wait_loop_thrown_last:
  "attempts < maxAttempts \<Longrightarrow> attempts + 1 \<ge> maxAttempts
   \<Longrightarrow> try_query (responses attempts) promptId attempts = Thrown e
   \<Longrightarrow> wait_loop responses promptId attempts = ([Query attempts], Inl e)"
  by (simp add: wait_loop.simps[of responses promptId attempts])

text \<open>An error raised before the last attempt, whatever it is, does not end the loop.\<close>

lemma wait_loop_thrown:
  "attempts < maxAttempts \<Longrightarrow> \<not> attempts + 1 \<ge> maxAttempts
   \<Longrightarrow> try_query (responses attempts) promptId attempts = Thrown e
   \<Longrightarrow> wait_loop responses promptId attempts
       = emit [Query attempts, Sleep 5000] (wait_loop responses promptId (attempts + 1))"
  by (simp add: wait_loop.simps[of responses promptId attempts])

text \<open>The queries are numbered from the attempts made on, without a gap.\<close>

lemma wait_loop_queries:
  "attempts \<le> maxAttempts \<Longrightarrow>
   \<exists>n. attempts + n \<le> maxAttempts
     \<and> queries (fst (wait_loop responses promptId attempts)) = [attempts ..< attempts + n]"
proof (induction responses promptId attempts rule: wait_loop.induct)
  case (1 responses promptId attempts)
  show ?case
  proof (cases "attempts < maxAttempts")
    case False
    then have "queries (fst (wait_loop responses promptId attempts)) = [attempts ..< attempts + 0]"
      by (simp add: wait_loop_done)
    then show ?thesis using "1.prems" by (intro exI[of _ 0]) simp
  next
    case lt: True
    have one: "queries (fst (wait_loop responses promptId attempts)) = [attempts]
      \<Longrightarrow> ?thesis"
      using lt by (intro exI[of _ 1]) simp
    have more: "queries (fst (wait_loop responses promptId attempts))
                  = attempts # queries (fst (wait_loop responses promptId (attempts + 1)))
      \<Longrightarrow> \<exists>n. attempts + 1 + n \<le> maxAttempts
            \<and> queries (fst (wait_loop responses promptId (attempts + 1)))
                = [attempts + 1 ..< attempts + 1 + n]
      \<Longrightarrow> ?thesis"
    proof -
      assume q: "queries (fst (wait_loop responses promptId attempts))
                  = attempts # queries (fst (wait_loop responses promptId (attempts + 1)))"
      assume "\<exists>n. attempts + 1 + n \<le> maxAttempts
            \<and> queries (fst (wait_loop responses promptId (attempts + 1)))
                = [attempts + 1 ..< attempts + 1 + n]"
      then obtain n where n: "attempts + 1 + n \<le> maxAttempts"
        "queries (fst (wait_loop responses promptId (attempts + 1)))
           = [attempts + 1 ..< attempts + 1 + n]"
        by blast
      have "queries (fst (wait_loop responses promptId attempts))
              = [attempts ..< attempts + (n + 1)]"
        using q n by (simp add: upt_rec)
      then show ?thesis using n by (intro exI[of _ "n + 1"]) simp
    qed
    show ?thesis
    proof (cases "try_query (responses attempts) promptId attempts")
      case (Completed out)
      then show ?thesis using lt one by (simp add: wait_loop_completed)
    next
      case (Pending evs)
      have "queries evs = []" using try_query_pending[OF Pending] by auto
      then have "queries (fst (wait_loop responses promptId attempts))
                   = attempts # queries (fst (wait_loop responses promptId (attempts + 1)))"
        using lt Pending by (simp add: wait_loop_pending)
      then show ?thesis using more "1.IH"(1)[OF lt Pending] lt by simp
    next
      case (Thrown e)
      show ?thesis
      proof (cases "attempts + 1 \<ge> maxAttempts")
        case True
        then show ?thesis using lt Thrown one by (simp add: wait_loop_thrown_last)
      next
        case False
        then have "queries (fst (wait_loop responses promptId attempts))
                     = attempts # queries (fst (wait_loop responses promptId (attempts + 1)))"
          using lt Thrown by (simp add: wait_loop_thrown)
        then show ?thesis using more "1.IH"(2)[OF lt Thrown False] lt by simp
      qed
    qed
  qed
qed

lemma wait_loop_sleeps:
  "set (sleeps (fst (wait_loop responses promptId attempts))) \<subseteq> {5000}
   \<and> length (sleeps (fst (wait_loop responses promptId attempts)))
       \<le> length (queries (fst (wait_loop responses promptId attempts)))"
proof (induction responses promptId attempts rule: wait_loop.induct)
  case (1 responses promptId attempts)
  show ?case
  proof (cases "attempts < maxAttempts")
    case False
    then show ?thesis by (simp add: wait_loop_done)
  next
    case lt: True
    show ?thesis
    proof (cases "try_query (responses attempts) promptId attempts")
      case (Completed out)
      then show ?thesis using lt by (simp add: wait_loop_completed)
    next
      case (Pending evs)
      have "sleeps evs = []" "queries evs = []" using try_query_pending[OF Pending] by auto
      then show ?thesis using "1.IH"(1)[OF lt Pending] lt Pending
        by (simp add: wait_loop_pending)
    next
      case (Thrown e)
      then show ?thesis using "1.IH"(2)[OF lt Thrown] lt
        by (cases "attempts + 1 \<ge> maxAttempts")
          (simp_all add: wait_loop_thrown_last wait_loop_thrown)
    qed
  qed
qed

lemma polling_progress_mono: "a \<le> b \<Longrightarrow> polling_progress a \<le> polling_progress b"
proof -
  assume ab: "a \<le> b"
  have q: "rat_of_nat a / of_nat maxAttempts \<le> of_nat b / of_nat maxAttempts"
    using ab by (simp add: divide_right_mono)
  have "to_double (of_nat a / of_nat maxAttempts) \<le> to_double (of_nat b / of_nat maxAttempts)"
    using q by (intro to_double_mono) simp_all
  then have "to_double (of_nat a / of_nat maxAttempts) * 40
               \<le> to_double (of_nat b / of_nat maxAttempts) * 40"
    by simp
  then have "to_double (to_double (of_nat a / of_nat maxAttempts) * 40)
               \<le> to_double (to_double (of_nat b / of_nat maxAttempts) * 40)"
    by (intro to_double_mono) (simp_all add: to_double_nonneg)
  then have "50 + to_double (to_double (of_nat a / of_nat maxAttempts) * 40)
               \<le> 50 + to_double (to_double (of_nat b / of_nat maxAttempts) * 40)"
    by simp
  then have "to_double (50 + to_double (to_double (of_nat a / of_nat maxAttempts) * 40))
               \<le> to_double (50 + to_double (to_double (of_nat b / of_nat maxAttempts) * 40))"
    by (intro to_double_mono) (simp_all add: to_double_nonneg add_nonneg_nonneg)
  then show ?thesis by (simp add: polling_progress_def min.coboundedI1)
qed

lemma polling_progress_range: "50 \<le> polling_progress a \<and> polling_progress a < 90"
proof -
  have "to_double 50 \<le> to_double (50 + to_double (to_double (of_nat a / of_nat maxAttempts) * 40))"
    by (intro to_double_mono) (simp_all add: to_double_nonneg)
  then show ?thesis by (simp add: polling_progress_def to_double_50 min_def)
qed

text \<open>
  The progress of an attempt is the exact value of the formula up to the rounding of
  the three operations.
\<close>

lemma polling_progress_error:
  assumes "attempts < maxAttempts"
  shows "\<bar>polling_progress attempts - min (50 + (of_nat attempts / 120) * 40) 89\<bar> < 1 / 2 ^ 46"
proof -
  define a :: rat where "a = of_nat attempts / 120"
  define b where "b = to_double a * 40"
  define c where "c = 50 + to_double b"
  have a: "0 \<le> a" "a < 1" using assms by (simp_all add: a_def maxAttempts_def)
  have ra: "0 \<le> to_double a" "to_double a \<le> 1"
    using a to_double_mono[of a 1] by (simp_all add: to_double_nonneg to_double_1)
  have ea: "\<bar>to_double a - a\<bar> \<le> 1 / 2 ^ 54"
    using to_double_error_below[of a 0] a by simp
  have b: "0 \<le> b" "b < 64" using ra by (simp_all add: b_def)
  have rb: "0 \<le> to_double b" "to_double b \<le> 40"
    using b ra to_double_mono[of b 40] by (simp_all add: to_double_nonneg to_double_40 b_def)
  have eb: "\<bar>to_double b - b\<bar> \<le> 1 / 2 ^ 48"
    using to_double_error_below[of b 6] b by simp
  have c: "0 \<le> c" "c < 128" using rb by (simp_all add: c_def)
  have ec: "\<bar>to_double c - c\<bar> \<le> 1 / 2 ^ 47"
    using to_double_error_below[of c 7] c by simp
  define d1 where "d1 = to_double c - c"
  define d2 where "d2 = to_double b - b"
  define d3 where "d3 = to_double a - a"
  have eq: "to_double c - (50 + a * 40) = d1 + d2 + d3 * 40"
    by (simp add: d1_def d2_def d3_def c_def b_def algebra_simps)
  have b1: "\<bar>d1\<bar> \<le> 1 / 140737488355328" using ec by (simp add: d1_def)
  have b2: "\<bar>d2\<bar> \<le> 1 / 281474976710656" using eb by (simp add: d2_def)
  have b3: "\<bar>d3\<bar> \<le> 1 / 18014398509481984" using ea by (simp add: d3_def)
  have "\<bar>d1 + d2 + d3 * 40\<bar> < 1 / 70368744177664"
    using b1 b2 b3 by linarith
  then have "\<bar>to_double c - (50 + a * 40)\<bar> < 1 / 70368744177664"
    unfolding eq .
  then have "\<bar>min (to_double c) 89 - min (50 + a * 40) 89\<bar> < 1 / 70368744177664"
    by linarith
  then show ?thesis
    by (simp add: polling_progress_def maxAttempts_def a_def b_def c_def)
qed

lemma wait_loop_progress:
  "sorted (progress_values (fst (wait_loop responses promptId attempts)))
   \<and> set (progress_values (fst (wait_loop responses promptId attempts)))
       \<subseteq> polling_progress ` {attempts ..< maxAttempts}"
proof (induction responses promptId attempts rule: wait_loop.induct)
  case (1 responses promptId attempts)
  show ?case
  proof (cases "attempts < maxAttempts")
    case False
    then show ?thesis by (simp add: wait_loop_done)
  next
    case lt: True
    have up: "polling_progress ` {attempts + 1 ..< maxAttempts}
                \<subseteq> polling_progress ` {attempts ..< maxAttempts}"
      by (rule image_mono) auto
    have lb: "\<And>p. p \<in> polling_progress ` {attempts + 1 ..< maxAttempts}
                \<Longrightarrow> polling_progress attempts \<le> p"
      by (auto intro: polling_progress_mono)
    show ?thesis
    proof (cases "try_query (responses attempts) promptId attempts")
      case (Completed out)
      then show ?thesis using lt by (simp add: wait_loop_completed)
    next
      case (Pending evs)
      note ih = "1.IH"(1)[OF lt Pending]
      from try_query_pending[OF Pending] show ?thesis
      proof
        assume "evs = []"
        then show ?thesis using ih lt Pending up by (auto simp: wait_loop_pending)
      next
        assume "evs = [Progress (polling_progress attempts)]"
        then show ?thesis using ih lt Pending up lb by (auto simp: wait_loop_pending)
      qed
    next
      case (Thrown e)
      then show ?thesis using "1.IH"(2)[OF lt Thrown] lt up
        by (cases "attempts + 1 \<ge> maxAttempts")
          (auto simp: wait_loop_thrown_last wait_loop_thrown)
    qed
  qed
qed

lemma sum_list_sleeps: "set xs \<subseteq> {5000 :: nat} \<Longrightarrow> sum_list xs = 5000 * length xs"
  by (induction xs) simp_all

text \<open>A query is followed by a sleep of 5000 milliseconds before the next query.\<close>

lemma wait_loop_starts:
  "attempts < maxAttempts \<Longrightarrow> queries (fst (wait_loop responses promptId attempts)) \<noteq> []"
  by (simp add: wait_loop.simps[of responses promptId attempts] split: attempt.splits)

lemma replicate_length_pred: "xs \<noteq> [] \<Longrightarrow> v # replicate (length xs - 1) v = replicate (length xs) v"
  by (cases xs) simp_all

lemma wait_loop_intervals:
  "attempts < maxAttempts \<Longrightarrow>
   intervals_from t (fst (wait_loop responses promptId attempts))
     = (case t of None \<Rightarrow> [] | Some d \<Rightarrow> [d])
       @ replicate (length (queries (fst (wait_loop responses promptId attempts))) - 1) 5000"
proof (induction responses promptId attempts arbitrary: t rule: wait_loop.induct)
  case (1 responses promptId attempts)
  note lt = "1.prems"
  have rest: "intervals_from (Some 5000) (fst (wait_loop responses promptId (attempts + 1)))
                = replicate (length (queries (fst (wait_loop responses promptId (attempts + 1))))) 5000"
    if ih: "attempts + 1 < maxAttempts \<Longrightarrow>
            intervals_from (Some 5000) (fst (wait_loop responses promptId (attempts + 1)))
              = [5000] @ replicate
                  (length (queries (fst (wait_loop responses promptId (attempts + 1)))) - 1) 5000"
  proof (cases "attempts + 1 < maxAttempts")
    case True
    show ?thesis
      using ih[OF True] replicate_length_pred[OF wait_loop_starts[OF True], of 5000 responses promptId]
      by simp
  next
    case False
    then show ?thesis by (simp add: wait_loop_done)
  qed
  show ?case
  proof (cases "try_query (responses attempts) promptId attempts")
    case (Completed out)
    then show ?thesis using lt by (simp add: wait_loop_completed)
  next
    case (Pending evs)
    have r: "intervals_from (Some 5000) (fst (wait_loop responses promptId (attempts + 1)))
                = replicate (length (queries (fst (wait_loop responses promptId (attempts + 1))))) 5000"
      using "1.IH"(1)[OF lt Pending, of "Some 5000"] by (intro rest) simp
    from try_query_pending[OF Pending] show ?thesis
    proof
      assume "evs = []"
      then show ?thesis using r lt Pending by (simp add: wait_loop_pending)
    next
      assume "evs = [Progress (polling_progress attempts)]"
      then show ?thesis using r lt Pending by (simp add: wait_loop_pending)
    qed
  next
    case (Thrown e)
    show ?thesis
    proof (cases "attempts + 1 \<ge> maxAttempts")
      case True
      then show ?thesis using lt Thrown by (simp add: wait_loop_thrown_last)
    next
      case False
      have r: "intervals_from (Some 5000) (fst (wait_loop responses promptId (attempts + 1)))
                = replicate (length (queries (fst (wait_loop responses promptId (attempts + 1))))) 5000"
        using "1.IH"(2)[OF lt Thrown False, of "Some 5000"] by (intro rest) simp
      then show ?thesis using lt Thrown False by (simp add: wait_loop_thrown)
    qed
  qed
qed

text \<open>
  A progress report follows the query of its attempt, and its value is the progress of
  that attempt; an attempt reports at most once.
\<close>

lemma progress_by_query_values: "map snd (progress_by_query i evs) = progress_values evs"
  by (induction i evs rule: progress_by_query.induct) simp_all

lemma wait_loop_reports:
  "(\<forall>(i, p) \<in> set (progress_by_query j (fst (wait_loop responses promptId attempts))).
      attempts \<le> i \<and> i < maxAttempts \<and> p = polling_progress i)
   \<and> sorted_wrt (<) (map fst (progress_by_query j (fst (wait_loop responses promptId attempts))))"
proof (induction responses promptId attempts arbitrary: j rule: wait_loop.induct)
  case (1 responses promptId attempts)
  show ?case
  proof (cases "attempts < maxAttempts")
    case False
    then show ?thesis by (simp add: wait_loop_done)
  next
    case lt: True
    show ?thesis
    proof (cases "try_query (responses attempts) promptId attempts")
      case (Completed out)
      then show ?thesis using lt by (simp add: wait_loop_completed)
    next
      case (Pending evs)
      note ih = "1.IH"(1)[OF lt Pending, of attempts]
      from try_query_pending[OF Pending] show ?thesis
      proof
        assume "evs = []"
        then show ?thesis using ih lt Pending by (auto simp: wait_loop_pending)
      next
        assume "evs = [Progress (polling_progress attempts)]"
        then show ?thesis using ih lt Pending by (fastforce simp: wait_loop_pending)
      qed
    next
      case (Thrown e)
      show ?thesis
      proof (cases "attempts + 1 \<ge> maxAttempts")
        case True
        then show ?thesis using lt Thrown by (simp add: wait_loop_thrown_last)
      next
        case False
        then show ?thesis using "1.IH"(2)[OF lt Thrown False, of attempts] lt Thrown
          by (auto simp: wait_loop_thrown)
      qed
    qed
  qed
qed

lemma wait_loop_returns_first_completed:
  "attempts \<le> k \<Longrightarrow> k < maxAttempts \<Longrightarrow> try_query (responses k) promptId k = Completed out
   \<Longrightarrow> (\<And>i out'. attempts \<le> i \<Longrightarrow> i < k
          \<Longrightarrow> try_query (responses i) promptId i \<noteq> Completed out')
   \<Longrightarrow> snd (wait_loop responses promptId attempts) = Inr out"
proof (induction responses promptId attempts rule: wait_loop.induct)
  case (1 responses promptId attempts)
  have lt: "attempts < maxAttempts" using "1.prems" by simp
  show ?case
  proof (cases "attempts = k")
    case True
    then show ?thesis using "1.prems" lt by (simp add: wait_loop_completed)
  next
    case False
    then have ak: "attempts + 1 \<le> k" "attempts < k" using "1.prems" by simp_all
    have later: "\<And>i out'. attempts + 1 \<le> i \<Longrightarrow> i < k
                   \<Longrightarrow> try_query (responses i) promptId i \<noteq> Completed out'"
      using "1.prems"(4) by simp
    show ?thesis
    proof (cases "try_query (responses attempts) promptId attempts")
      case (Completed out')
      then show ?thesis using "1.prems"(4)[of attempts out'] ak by simp
    next
      case (Pending evs)
      from "1.IH"(1)[OF lt Pending ak(1) "1.prems"(2,3) later] show ?thesis
        using lt Pending by (simp add: wait_loop_pending)
    next
      case (Thrown e)
      have nl: "\<not> attempts + 1 \<ge> maxAttempts" using ak "1.prems"(2) by simp
      from "1.IH"(2)[OF lt Thrown nl ak(1) "1.prems"(2,3) later] show ?thesis
        using lt Thrown nl by (simp add: wait_loop_thrown)
    qed
  qed
qed

text \<open>
  When no query reports the job completed, the last attempt decides: its error is raised
  again, and the timeout error is raised otherwise.
\<close>

lemma wait_loop_never_completed:
  "attempts < maxAttempts \<Longrightarrow>
   (\<And>i out. attempts \<le> i \<Longrightarrow> i < maxAttempts
       \<Longrightarrow> try_query (responses i) promptId i \<noteq> Completed out)
   \<Longrightarrow> snd (wait_loop responses promptId attempts)
       = (case try_query (responses (maxAttempts - 1)) promptId (maxAttempts - 1) of
            Thrown e \<Rightarrow> Inl e
          | _ \<Rightarrow> Inl timeout_error)"
proof (induction responses promptId attempts rule: wait_loop.induct)
  case (1 responses promptId attempts)
  note lt = "1.prems"(1)
  have later: "\<And>i out. attempts + 1 \<le> i \<Longrightarrow> i < maxAttempts
                 \<Longrightarrow> try_query (responses i) promptId i \<noteq> Completed out"
    using "1.prems"(2) by simp
  show ?case
  proof (cases "try_query (responses attempts) promptId attempts")
    case (Completed out)
    then show ?thesis using "1.prems"(2)[of attempts out] lt by simp
  next
    case (Pending evs)
    show ?thesis
    proof (cases "attempts + 1 < maxAttempts")
      case True
      from "1.IH"(1)[OF lt Pending True later] show ?thesis
        using lt Pending by (simp add: wait_loop_pending)
    next
      case False
      then have last: "attempts = maxAttempts - 1" using lt by simp
      have "snd (wait_loop responses promptId attempts) = Inl timeout_error"
        using lt Pending False by (simp add: wait_loop_pending wait_loop_done)
      moreover have "try_query (responses (maxAttempts - 1)) promptId (maxAttempts - 1) = Pending evs"
        using Pending last by simp
      ultimately show ?thesis by simp
    qed
  next
    case (Thrown e)
    show ?thesis
    proof (cases "attempts + 1 \<ge> maxAttempts")
      case True
      then have last: "attempts = maxAttempts - 1" using lt by simp
      have "snd (wait_loop responses promptId attempts) = Inl e"
        using lt Thrown True by (simp add: wait_loop_thrown_last)
      moreover have "try_query (responses (maxAttempts - 1)) promptId (maxAttempts - 1) = Thrown e"
        using Thrown last by simp
      ultimately show ?thesis by simp
    next
      case False
      then have nl: "attempts + 1 < maxAttempts" by simp
      from "1.IH"(2)[OF lt Thrown False nl later] show ?thesis
        using lt Thrown False by (simp add: wait_loop_thrown)
    qed
  qed
qed

lemmas poller_eval =
  waitForComfyUICompletion_def wait_loop.simps maxAttempts_def emit_def try_query_def
  running_body_def completed_body_def error_body_def pid_def errorMsg_def polling_progress_def
  double_eval js_eval

text \<open>
  Claim C2, at a failing input.  The backend reports the job entry with an explicit error
  status on the first query and the entry as completed on the second.  The try block
  raises the error with the message of the first status message, and the catch block of
  the same iteration receives it: the poller sleeps, queries a second time, and returns
  the outputs.
\<close>

theorem error_status_does_not_stop_polling:
  "try_query (error_then_done 0) pid 0 = Thrown (Error (str ''ComfyUI Error: boom''))
   \<and> waitForComfyUICompletion error_then_done pid
       = ([Query 0, Sleep 5000, Query 1], Inr (Some outputs1))"
  by (simp add: poller_eval error_then_done_def)

text \<open>
  Claim C4.  The poller is a total function (the loop is defined with its termination
  proof, on the measure \<open>maxAttempts - attempts\<close>).  It makes at most 120 status queries,
  numbered from 0 without a gap; the time slept between each query and the next one is
  5000 milliseconds, every sleep lasts 5000 milliseconds, there are no more sleeps than
  queries, and the sleeps add up to 600000 milliseconds at most.  If the first query
  that reports the job completed is among the first 120, the poller returns the outputs
  of that report.  If none of the 120 queries reports the job completed, the poller
  raises the timeout error, unless the 120th attempt itself raises an error, which is then
  the error of the poller: errors of earlier attempts do not count.
\<close>

theorem poller_bounded:
  "length (queries (fst (waitForComfyUICompletion responses promptId))) \<le> 120
   \<and> queries (fst (waitForComfyUICompletion responses promptId))
       = [0 ..< length (queries (fst (waitForComfyUICompletion responses promptId)))]
   \<and> intervals (fst (waitForComfyUICompletion responses promptId))
       = replicate (length (queries (fst (waitForComfyUICompletion responses promptId))) - 1) 5000
   \<and> set (sleeps (fst (waitForComfyUICompletion responses promptId))) \<subseteq> {5000}
   \<and> length (sleeps (fst (waitForComfyUICompletion responses promptId)))
       \<le> length (queries (fst (waitForComfyUICompletion responses promptId)))
   \<and> sum_list (sleeps (fst (waitForComfyUICompletion responses promptId))) \<le> 600000
   \<and> (k < 120 \<and> try_query (responses k) promptId k = Completed outputs
        \<and> (\<forall>i<k. \<forall>out. try_query (responses i) promptId i \<noteq> Completed out)
      \<longrightarrow> snd (waitForComfyUICompletion responses promptId) = Inr outputs)
   \<and> ((\<forall>i<120. \<forall>out. try_query (responses i) promptId i \<noteq> Completed out)
        \<and> (\<forall>e. try_query (responses 119) promptId 119 \<noteq> Thrown e)
      \<longrightarrow> snd (waitForComfyUICompletion responses promptId) = Inl timeout_error)
   \<and> ((\<forall>i<120. \<forall>out. try_query (responses i) promptId i \<noteq> Completed out)
        \<and> try_query (responses 119) promptId 119 = Thrown err
      \<longrightarrow> snd (waitForComfyUICompletion responses promptId) = Inl err)"
proof -
  let ?evs = "fst (wait_loop responses promptId 0)"
  from wait_loop_queries[of 0 responses promptId] obtain n where
    n: "n \<le> maxAttempts" "queries ?evs = [0 ..< n]"
    by auto
  have len: "length (queries ?evs) \<le> 120" using n by (simp add: maxAttempts_def)
  have num: "queries ?evs = [0 ..< length (queries ?evs)]" using n by simp
  have gap: "intervals ?evs = replicate (length (queries ?evs) - 1) 5000"
    using wait_loop_intervals[of 0 None responses promptId]
    by (simp add: intervals_def maxAttempts_def)
  have sl: "set (sleeps ?evs) \<subseteq> {5000}" "length (sleeps ?evs) \<le> length (queries ?evs)"
    using wait_loop_sleeps[of responses promptId 0] by simp_all
  have total: "sum_list (sleeps ?evs) \<le> 600000"
    using sum_list_sleeps[OF sl(1)] sl(2) len by simp
  have found: "snd (wait_loop responses promptId 0) = Inr outputs"
    if "k < 120 \<and> try_query (responses k) promptId k = Completed outputs
        \<and> (\<forall>i<k. \<forall>out. try_query (responses i) promptId i \<noteq> Completed out)"
    using that by (intro wait_loop_returns_first_completed[of 0 k]) (auto simp: maxAttempts_def)
  have never: "snd (wait_loop responses promptId 0)
                 = (case try_query (responses 119) promptId 119 of
                      Thrown e \<Rightarrow> Inl e | _ \<Rightarrow> Inl timeout_error)"
    if "\<forall>i<120. \<forall>out. try_query (responses i) promptId i \<noteq> Completed out"
    using wait_loop_never_completed[of 0 responses promptId] that by (simp add: maxAttempts_def)
  have out: "snd (wait_loop responses promptId 0) = Inl timeout_error"
    if "(\<forall>i<120. \<forall>out. try_query (responses i) promptId i \<noteq> Completed out)
        \<and> (\<forall>e. try_query (responses 119) promptId 119 \<noteq> Thrown e)"
    using never that by (cases "try_query (responses 119) promptId 119") simp_all
  have last: "snd (wait_loop responses promptId 0) = Inl err"
    if "(\<forall>i<120. \<forall>out. try_query (responses i) promptId i \<noteq> Completed out)
        \<and> try_query (responses 119) promptId 119 = Thrown err"
    using never that by simp
  show ?thesis
    unfolding waitForComfyUICompletion_def
    using len num gap sl total found out last by (intro conjI impI)
qed

theorem poller_bounded_witness:
  "try_query (slow_backend 119) pid 119 = Completed (Some outputs1)
   \<and> snd (waitForComfyUICompletion slow_backend pid) = Inr (Some outputs1)
   \<and> try_query (flaky_backend 0) pid 0 = Thrown (Error (str ''ComfyUI Error: boom''))
   \<and> snd (waitForComfyUICompletion flaky_backend pid) = Inl timeout_error
   \<and> snd (waitForComfyUICompletion failing_backend pid)
       = Inl (Error (str ''Erro ao consultar hist'' @ [243] @ str ''rico: 503''))
   \<and> fst (waitForComfyUICompletion error_then_done pid) = [Query 0, Sleep 5000, Query 1]
   \<and> intervals (fst (waitForComfyUICompletion error_then_done pid)) = [5000]
   \<and> fst (waitForComfyUICompletion brief_backend pid)
       = [Query 0, Progress 50, Sleep 5000,
          Query 1, Progress (7083786913884843 / 140737488355328), Sleep 5000, Query 2]
   \<and> intervals (fst (waitForComfyUICompletion brief_backend pid)) = [5000, 5000]
   \<and> length (queries (fst (waitForComfyUICompletion slow_backend pid))) \<le> 120"
proof -
  have last: "try_query (slow_backend 119) pid 119 = Completed (Some outputs1)"
    by (simp add: try_query_def slow_backend_def completed_body_def pid_def js_eval)
  have before: "\<forall>i<119. \<forall>out. try_query (slow_backend i) pid i \<noteq> Completed out"
    by (simp add: try_query_def slow_backend_def running_body_def pid_def js_eval)
  have first: "try_query (flaky_backend 0) pid 0 = Thrown (Error (str ''ComfyUI Error: boom''))"
    by (simp add: try_query_def flaky_backend_def error_body_def pid_def errorMsg_def js_eval)
  have flaky: "\<forall>i<120. \<forall>out. try_query (flaky_backend i) pid i \<noteq> Completed out"
    by (simp add: try_query_def flaky_backend_def running_body_def error_body_def pid_def js_eval)
  have flaky_last: "\<forall>e. try_query (flaky_backend 119) pid 119 \<noteq> Thrown e"
    by (simp add: try_query_def flaky_backend_def running_body_def pid_def js_eval)
  have failing: "\<forall>i<120. \<forall>out. try_query (failing_backend i) pid i \<noteq> Completed out"
    by (simp add: try_query_def failing_backend_def)
  have failing_last: "try_query (failing_backend 119) pid 119
      = Thrown (Error (str ''Erro ao consultar hist'' @ [243] @ str ''rico: 503''))"
    by (simp add: try_query_def failing_backend_def show_int_def dec.simps str_def)
  have trace: "fst (waitForComfyUICompletion error_then_done pid) = [Query 0, Sleep 5000, Query 1]"
    by (simp add: poller_eval error_then_done_def)
  have brief: "fst (waitForComfyUICompletion brief_backend pid)
       = [Query 0, Progress 50, Sleep 5000,
          Query 1, Progress (7083786913884843 / 140737488355328), Sleep 5000, Query 2]"
    by (simp add: poller_eval brief_backend_def)
  show ?thesis
    using poller_bounded [of slow_backend pid 119 "Some outputs1"]
      poller_bounded [of flaky_backend pid 0 None]
      poller_bounded [of failing_backend pid 0 None
        "Error (str ''Erro ao consultar hist'' @ [243] @ str ''rico: 503'')"]
      poller_bounded [of error_then_done pid 0 None]
      poller_bounded [of brief_backend pid 0 None]
      last before first flaky flaky_last failing failing_last trace brief
    by simp
qed

section \<open>Properties of the worker loop\<close>

lemma waitFor_progress:
  "waitForComfyUICompletion responses promptId = (evs, r) \<Longrightarrow>
     sorted (progress_values evs) \<and> (\<forall>p \<in> set (progress_values evs). 50 \<le> p \<and> p < 90)"
  using wait_loop_progress[of responses promptId 0] polling_progress_range
  by (auto simp: waitForComfyUICompletion_def)

lemma worker_sorted:
  "sorted (progress_values (fst (imageGenerationWorker env d)))"
  unfolding imageGenerationWorker_def
  by (auto simp: sorted_append dest!: waitFor_progress
      split: load.splits prod.splits sum.splits submission.splits option.splits)

lemma worker_success_ends_at_100:
  "snd (imageGenerationWorker env d) = Inr r \<Longrightarrow>
     last (progress_values (fst (imageGenerationWorker env d))) = 100"
  unfolding imageGenerationWorker_def
  by (auto split: load.splits prod.splits sum.splits submission.splits option.splits if_splits)

lemma polling_run1:
  "fst (waitForComfyUICompletion patchy_backend pid)
     = [Query 0, Progress 50, Sleep 5000,
        Query 1, Progress (7083786913884843 / 140737488355328), Sleep 5000]
       @ concat (map (\<lambda>i. [Query i, Sleep 5000]) [2 ..< 59])
       @ [Query 59, Progress (2451177922188629 / 35184372088832), Sleep 5000,
          Query 60, Progress 70, Sleep 5000]
       @ concat (map (\<lambda>i. [Query i, Sleep 5000]) [61 ..< 118])
       @ [Query 118, Progress 89, Sleep 5000, Query 119]
   \<and> snd (waitForComfyUICompletion patchy_backend pid) = Inr (Some outputs1)"
  by (simp add: poller_eval patchy_backend_def upt_rec)

text \<open>The value at the attempt 1 is the double that prints as 50.333333333333336.\<close>

lemma polling_progress_1:
  "polling_progress 1 = 7083786913884843 / 140737488355328
   \<and> 50.333333333333335 < polling_progress 1 \<and> polling_progress 1 < 50.333333333333337
   \<and> polling_progress 1 \<noteq> 50 + 1 / 3"
  by (simp add: polling_progress_def maxAttempts_def double_eval)

lemma worker_run1:
  "progress_values (fst (imageGenerationWorker worker_env1
       (payload0 \<lparr> data_inputs := Some (JObj []) \<rparr>)))
     = [10, 20, 30, 50, 50, 7083786913884843 / 140737488355328,
        2451177922188629 / 35184372088832, 70, 89, 90, 100]
   \<and> (\<exists>r. snd (imageGenerationWorker worker_env1
            (payload0 \<lparr> data_inputs := Some (JObj []) \<rparr>)) = Inr r)"
proof -
  obtain evs where w: "waitForComfyUICompletion patchy_backend pid = (evs, Inr (Some outputs1))"
    and evs: "progress_values evs
                = [50, 7083786913884843 / 140737488355328, 2451177922188629 / 35184372088832,
                   70, 89]"
  proof
    show "waitForComfyUICompletion patchy_backend pid
            = (fst (waitForComfyUICompletion patchy_backend pid), Inr (Some outputs1))"
      using polling_run1 by (simp add: prod_eq_iff)
    show "progress_values (fst (waitForComfyUICompletion patchy_backend pid))
            = [50, 7083786913884843 / 140737488355328, 2451177922188629 / 35184372088832,
               70, 89]"
      using progress_by_query_values[of 0 "fst (waitForComfyUICompletion patchy_backend pid)",
          symmetric]
      by (simp add: polling_run1 upt_rec)
  qed
  have t: "pid \<noteq> []" by (simp add: pid_def str_def)
  show ?thesis
    by (simp add: imageGenerationWorker_def worker_env1_def payload0_def template1_def
        injectWorkflowParameters_def inject_by_name_def set_node_text_def fashion_sketch_text_def
        negative_text_def inject_seed_def store_def put_def js_eval emit_def w evs t
        processComfyUIOutputs_def outputs1_def node_images_def image_entry_def)
qed

text \<open>
  Claim C6.  The progress values that one run of the worker reports are in non-decreasing
  order, and the last one is 100 when the run succeeds.  Every progress value that the
  poller reports follows the status query of an attempt below 120 and is the value of
  \<open>50 + (attempts / 120) * 40\<close> clamped to 89 for the number of that attempt, computed in
  double-precision arithmetic; it differs from the exact value of the formula by less
  than \<open>2\<^sup>-\<^sup>4\<^sup>6\<close> and lies in the interval from 50 to 90, 90 excluded.  An attempt reports at
  most once, and every progress value of the poller is such a report.
\<close>

theorem progress_non_decreasing:
  "sorted (progress_values (fst (imageGenerationWorker env d)))
   \<and> (\<forall>r. snd (imageGenerationWorker env d) = Inr r
        \<longrightarrow> last (progress_values (fst (imageGenerationWorker env d))) = 100)
   \<and> (\<forall>(i, p) \<in> set (progress_by_query 0 (fst (waitForComfyUICompletion responses promptId))).
        i < 120
        \<and> p = min (to_double (50 + to_double (to_double (of_nat i / 120) * 40))) 89
        \<and> \<bar>p - min (50 + (of_nat i / 120) * 40) 89\<bar> < 1 / 2 ^ 46
        \<and> 50 \<le> p \<and> p < 90)
   \<and> sorted_wrt (<)
        (map fst (progress_by_query 0 (fst (waitForComfyUICompletion responses promptId))))
   \<and> map snd (progress_by_query 0 (fst (waitForComfyUICompletion responses promptId)))
       = progress_values (fst (waitForComfyUICompletion responses promptId))"
proof (intro conjI allI impI ballI)
  show "sorted (progress_values (fst (imageGenerationWorker env d)))"
    by (rule worker_sorted)
next
  fix r assume "snd (imageGenerationWorker env d) = Inr r"
  then show "last (progress_values (fst (imageGenerationWorker env d))) = 100"
    by (rule worker_success_ends_at_100)
next
  fix x assume x: "x \<in> set (progress_by_query 0 (fst (waitForComfyUICompletion responses promptId)))"
  obtain i p where ip: "x = (i, p)" by (cases x)
  have "i < maxAttempts \<and> p = polling_progress i"
    using wait_loop_reports[of 0 responses promptId 0] x ip
    by (auto simp: waitForComfyUICompletion_def)
  then have i: "i < maxAttempts" and p: "p = polling_progress i" by simp_all
  have "i < 120" using i by (simp add: maxAttempts_def)
  moreover have "p = min (to_double (50 + to_double (to_double (of_nat i / 120) * 40))) 89"
    using p by (simp add: polling_progress_def maxAttempts_def)
  moreover have "\<bar>p - min (50 + (of_nat i / 120) * 40) 89\<bar> < 1 / 2 ^ 46"
    unfolding p by (rule polling_progress_error[OF i])
  moreover have "50 \<le> p" "p < 90" using p polling_progress_range[of i] by simp_all
  ultimately show "case x of (i, p) \<Rightarrow>
        i < 120
        \<and> p = min (to_double (50 + to_double (to_double (of_nat i / 120) * 40))) 89
        \<and> \<bar>p - min (50 + (of_nat i / 120) * 40) 89\<bar> < 1 / 2 ^ 46
        \<and> 50 \<le> p \<and> p < 90"
    unfolding ip by simp
next
  show "sorted_wrt (<)
        (map fst (progress_by_query 0 (fst (waitForComfyUICompletion responses promptId))))"
    using wait_loop_reports[of 0 responses promptId 0] by (simp add: waitForComfyUICompletion_def)
next
  show "map snd (progress_by_query 0 (fst (waitForComfyUICompletion responses promptId)))
       = progress_values (fst (waitForComfyUICompletion responses promptId))"
    by (rule progress_by_query_values)
qed

theorem progress_non_decreasing_witness:
  "progress_values (fst (imageGenerationWorker worker_env1
       (payload0 \<lparr> data_inputs := Some (JObj []) \<rparr>)))
     = [10, 20, 30, 50, 50, 7083786913884843 / 140737488355328,
        2451177922188629 / 35184372088832, 70, 89, 90, 100]
   \<and> (\<exists>r. snd (imageGenerationWorker worker_env1
            (payload0 \<lparr> data_inputs := Some (JObj []) \<rparr>)) = Inr r)
   \<and> sorted [10, 20, 30, 50, 50, 7083786913884843 / 140737488355328,
        2451177922188629 / 35184372088832, 70, 89, 90, 100 :: rat]
   \<and> last [10, 20, 30, 50, 50, 7083786913884843 / 140737488355328,
        2451177922188629 / 35184372088832, 70, 89, 90, 100 :: rat] = 100
   \<and> progress_by_query 0 (fst (waitForComfyUICompletion (history_responses worker_env1) pid))
       = [(0, 50), (1, 7083786913884843 / 140737488355328),
          (59, 2451177922188629 / 35184372088832), (60, 70), (118, 89)]
   \<and> 7083786913884843 / 140737488355328
       = min (to_double (50 + to_double (to_double (of_nat 1 / 120) * 40))) 89
   \<and> 70 = min (to_double (50 + to_double (to_double (of_nat 60 / 120) * 40))) 89
   \<and> 89 = min (to_double (50 + to_double (to_double (of_nat 118 / 120) * 40))) 89"
proof -
  have pv: "progress_by_query 0 (fst (waitForComfyUICompletion (history_responses worker_env1) pid))
       = [(0, 50), (1, 7083786913884843 / 140737488355328),
          (59, 2451177922188629 / 35184372088832), (60, 70), (118, 89)]"
    by (simp add: worker_env1_def polling_run1 upt_rec)
  show ?thesis
    using progress_non_decreasing [of worker_env1 "payload0 \<lparr> data_inputs := Some (JObj []) \<rparr>"
        "history_responses worker_env1" pid] worker_run1 pv
    by simp
qed

section \<open>Properties of the result extractor\<close>

lemma member_non_null: "v \<noteq> JNull \<Longrightarrow> member (Some v) k = Inr (own v k)"
  by (cases v) (simp_all add: member_def)

lemma push_images_ok:
  "list_all (\<lambda>img. img \<noteq> JNull) imgs \<Longrightarrow>
   push_images nodeId imgs
     = Inr (map (\<lambda>img. \<lparr> filename = own img (str ''filename''), subfolder = own img (str ''subfolder''),
                       image_type = own img (str ''type''), node_id = nodeId \<rparr>) imgs)"
  by (induction imgs) (simp_all add: image_entry_def and_then_def member_non_null)

lemma node_images_ok:
  "own outputs nodeId = Some grp \<Longrightarrow> well_formed_group grp \<Longrightarrow>
   node_images outputs nodeId = Inr (artifacts_of nodeId grp)"
  by (auto simp: node_images_def well_formed_group_def artifacts_of_def and_then_def
      member_non_null push_images_ok split: option.splits jsval.splits)

lemma all_images_ok:
  "distinct (map fst groups) \<Longrightarrow> set gs \<subseteq> set groups
   \<Longrightarrow> list_all (\<lambda>kg. well_formed_group (snd kg)) gs
   \<Longrightarrow> all_images (JObj groups) (map fst gs)
       = Inr (concat (map (\<lambda>kg. artifacts_of (fst kg) (snd kg)) gs))"
proof (induction gs)
  case Nil
  then show ?case by simp
next
  case (Cons kg gs)
  obtain k g where kg: "kg = (k, g)" by (cases kg)
  with Cons.prems have "map_of groups k = Some g" by simp
  then have "node_images (JObj groups) k = Inr (artifacts_of k g)"
    using Cons.prems kg by (intro node_images_ok) simp_all
  then show ?case using Cons kg by (simp add: and_then_def)
qed

lemma push_images_error: "push_images nodeId imgs = Inl e \<Longrightarrow> e = TypeError"
  by (induction imgs arbitrary: e)
    (auto simp: image_entry_def and_then_def member_def split: sum.splits jsval.splits option.splits)

lemma node_images_error: "node_images outputs nodeId = Inl e \<Longrightarrow> e = TypeError"
  by (auto simp: node_images_def and_then_def member_def dest: push_images_error
      split: sum.splits jsval.splits option.splits)

lemma all_images_error: "all_images outputs ks = Inl e \<Longrightarrow> e = TypeError"
  by (induction ks arbitrary: e) (auto simp: and_then_def dest: node_images_error split: sum.splits)

text \<open>
  Claim C7.  On outputs that are absent, null or an object, the extractor fails with the
  empty-output error exactly when the outputs are absent or null.  On an object of
  well-formed node groups it returns the artifacts of all groups, flattened in the order
  of the groups, each tagged with the identifier of its group; a group without an image
  list contributes none.
\<close>

theorem extractor_flattens:
  "processComfyUIOutputs t None d = Inl empty_output_error
   \<and> processComfyUIOutputs t (Some JNull) d = Inl empty_output_error
   \<and> processComfyUIOutputs t (Some (JObj groups)) d \<noteq> Inl empty_output_error
   \<and> (well_formed_groups groups \<longrightarrow>
        processComfyUIOutputs t (Some (JObj groups)) d
          = Inr \<lparr> images = concat (map (\<lambda>kg. artifacts_of (fst kg) (snd kg)) groups),
                  metadata = \<lparr> workflow = workflow_name d, requester = user_id d,
                                generated_at = t \<rparr> \<rparr>)"
proof (intro conjI impI)
  show "processComfyUIOutputs t None d = Inl empty_output_error"
    by (simp add: processComfyUIOutputs_def empty_output_error_def)
  show "processComfyUIOutputs t (Some JNull) d = Inl empty_output_error"
    by (simp add: processComfyUIOutputs_def empty_output_error_def)
  show "processComfyUIOutputs t (Some (JObj groups)) d \<noteq> Inl empty_output_error"
    using all_images_error[of "JObj groups" "map fst groups"]
    by (auto simp: processComfyUIOutputs_def empty_output_error_def no_output_def
        split: sum.splits)
  assume "well_formed_groups groups"
  then show "processComfyUIOutputs t (Some (JObj groups)) d
          = Inr \<lparr> images = concat (map (\<lambda>kg. artifacts_of (fst kg) (snd kg)) groups),
                  metadata = \<lparr> workflow = workflow_name d, requester = user_id d,
                                generated_at = t \<rparr> \<rparr>"
    using all_images_ok[of groups groups]
    by (simp add: processComfyUIOutputs_def well_formed_groups_def)
qed

theorem extractor_flattens_witness:
  "well_formed_groups (properties outputs1)
   \<and> processComfyUIOutputs 7 (Some outputs1) payload0
       = Inr \<lparr> images =
                 [\<lparr> filename = Some (JStr (str ''a.png'')), subfolder = Some (JStr []),
                    image_type = Some (JStr (str ''output'')), node_id = str ''9'' \<rparr>,
                  \<lparr> filename = Some (JStr (str ''b.png'')), subfolder = Some (JStr []),
                    image_type = Some (JStr (str ''output'')), node_id = str ''9'' \<rparr>],
               metadata = \<lparr> workflow = str ''fashion-sketch'', requester = None,
                             generated_at = 7 \<rparr> \<rparr>"
proof -
  have wf: "well_formed_groups (properties outputs1)"
    by (simp add: well_formed_groups_def well_formed_group_def outputs1_def str_def)
  have o: "outputs1 = JObj (properties outputs1)" by (simp add: outputs1_def)
  have a: "concat (map (\<lambda>kg. artifacts_of (fst kg) (snd kg)) (properties outputs1))
       = [\<lparr> filename = Some (JStr (str ''a.png'')), subfolder = Some (JStr []),
            image_type = Some (JStr (str ''output'')), node_id = str ''9'' \<rparr>,
          \<lparr> filename = Some (JStr (str ''b.png'')), subfolder = Some (JStr []),
            image_type = Some (JStr (str ''output'')), node_id = str ''9'' \<rparr>]"
    by (simp add: artifacts_of_def outputs1_def str_def)
  show ?thesis
    using extractor_flattens [of 7 payload0 "properties outputs1"] wf o a
    by (simp add: payload0_def)
qed

section \<open>Properties of the parameter injector\<close>

lemma is_objectD: "is_object v \<Longrightarrow> \<exists>kvs. v = JObj kvs"
  by (cases v) simp_all

lemma well_formed_nodeD:
  "well_formed_node n \<Longrightarrow> \<exists>kvs ins. n = JObj kvs \<and> map_of kvs (str ''inputs'') = Some (JObj ins)"
  by (auto simp: well_formed_node_def dest!: is_objectD split: option.splits)

lemma well_formed_templateD:
  "well_formed_template w \<Longrightarrow>
     \<exists>kvs. w = JObj kvs \<and>
       (map_of kvs (str ''prompt'') = None
        \<or> (\<exists>nodes. map_of kvs (str ''prompt'') = Some (JObj nodes)
              \<and> list_all (\<lambda>kn. well_formed_node (snd kn)) nodes))"
  by (auto simp: well_formed_template_def dest!: is_objectD split: option.splits)

lemma map_of_json_copy:
  "map_of (map (\<lambda>(k, v). (k, json_copy v)) kvs) k = map_option json_copy (map_of kvs k)"
  by (induction kvs) auto

lemma well_formed_node_copy:
  assumes "well_formed_node n"
  shows "well_formed_node (json_copy n)"
proof -
  from well_formed_nodeD[OF assms] obtain kvs ins where
    "n = JObj kvs" "map_of kvs (str ''inputs'') = Some (JObj ins)"
    by blast
  then show ?thesis by (simp add: well_formed_node_def map_of_json_copy)
qed

lemma well_formed_template_copy:
  assumes "well_formed_template w"
  shows "well_formed_template (json_copy w)"
proof -
  from well_formed_templateD[OF assms] obtain kvs where w: "w = JObj kvs"
    and pr: "map_of kvs (str ''prompt'') = None
        \<or> (\<exists>nodes. map_of kvs (str ''prompt'') = Some (JObj nodes)
              \<and> list_all (\<lambda>kn. well_formed_node (snd kn)) nodes)"
    by blast
  show ?thesis
  proof (cases "map_of kvs (str ''prompt'')")
    case None
    then show ?thesis using w by (simp add: well_formed_template_def map_of_json_copy)
  next
    case (Some p)
    with pr obtain nodes where p: "p = JObj nodes"
      and nodes: "list_all (\<lambda>kn. well_formed_node (snd kn)) nodes"
      by auto
    have "list_all (\<lambda>kn. well_formed_node (snd kn)) (map (\<lambda>(k, v). (k, json_copy v)) nodes)"
      using nodes by (auto simp: list_all_iff well_formed_node_copy)
    then show ?thesis using w Some p by (simp add: well_formed_template_def map_of_json_copy)
  qed
qed

lemma map_of_assign_same [simp]: "map_of (assign kvs k v) k = Some v"
  by (induction kvs) auto

lemma set_assign: "set (assign kvs k v) \<subseteq> insert (k, v) (set kvs)"
  by (induction kvs) (auto split: if_splits)

lemma keys_assign: "map_of kvs k \<noteq> None \<Longrightarrow> map fst (assign kvs k v) = map fst kvs"
  by (induction kvs) auto

lemma list_all_assign:
  "list_all (\<lambda>kn. P (snd kn)) kvs \<Longrightarrow> P v \<Longrightarrow> list_all (\<lambda>kn. P (snd kn)) (assign kvs k v)"
  using set_assign[of kvs k v] by (auto simp: list_all_iff)

lemma list_all_map_of:
  assumes "list_all (\<lambda>kn. P (snd kn)) kvs" and "map_of kvs k = Some v"
  shows "P v"
proof -
  have "(k, v) \<in> set kvs" using assms(2) by (rule map_of_SomeD)
  then show ?thesis using assms(1) by (fastforce simp: list_all_iff)
qed

lemma well_formed_node_inputs:
  "well_formed_node (JObj (assign nkvs (str ''inputs'') (JObj ins)))"
  by (simp add: well_formed_node_def)

lemma set_node_text_ok:
  assumes "well_formed_template pw"
  shows "\<exists>pw'. set_node_text pw nodeId (Inr v) = Inr pw' \<and> well_formed_template pw'"
proof -
  from well_formed_templateD[OF assms] obtain kvs where pw: "pw = JObj kvs"
    and pr: "map_of kvs (str ''prompt'') = None
        \<or> (\<exists>nodes. map_of kvs (str ''prompt'') = Some (JObj nodes)
              \<and> list_all (\<lambda>kn. well_formed_node (snd kn)) nodes)"
    by blast
  show ?thesis
  proof (cases "map_of kvs (str ''prompt'')")
    case None
    then show ?thesis using assms pw by (simp add: set_node_text_def and_then_def member_def)
  next
    case (Some p)
    with pr obtain nodes where p: "p = JObj nodes"
      and nodes: "list_all (\<lambda>kn. well_formed_node (snd kn)) nodes"
      by auto
    show ?thesis
    proof (cases "map_of nodes nodeId")
      case None
      then show ?thesis using assms pw Some p
        by (simp add: set_node_text_def and_then_def member_def)
    next
      case n: (Some n)
      have "well_formed_node n" using nodes n by (rule list_all_map_of)
      from well_formed_nodeD[OF this] obtain nkvs ins where
        nn: "n = JObj nkvs" "map_of nkvs (str ''inputs'') = Some (JObj ins)"
        by blast
      let ?n' = "JObj (assign nkvs (str ''inputs'') (JObj (assign ins (str ''text'') v)))"
      let ?pw' = "JObj (assign kvs (str ''prompt'') (JObj (assign nodes nodeId ?n')))"
      have "set_node_text pw nodeId (Inr v) = Inr ?pw'"
        using pw Some p n nn by (simp add: set_node_text_def and_then_def member_def put_def store_def)
      moreover have "well_formed_template ?pw'"
        using list_all_assign[OF nodes well_formed_node_inputs]
        by (simp add: well_formed_template_def)
      ultimately show ?thesis by blast
    qed
  qed
qed

lemma seed_node_ok:
  assumes "list_all (\<lambda>kn. well_formed_node (snd kn)) nodes" and "map_of nodes nodeId \<noteq> None"
  shows "\<exists>nodes'. seed_node sd (JObj nodes) nodeId = Inr (JObj nodes')
           \<and> list_all (\<lambda>kn. well_formed_node (snd kn)) nodes' \<and> map fst nodes' = map fst nodes"
proof -
  from assms(2) obtain n where n: "map_of nodes nodeId = Some n" by auto
  have "well_formed_node n" using assms(1) n by (rule list_all_map_of)
  from well_formed_nodeD[OF this] obtain nkvs ins where
    nn: "n = JObj nkvs" "map_of nkvs (str ''inputs'') = Some (JObj ins)"
    by blast
  let ?n' = "JObj (assign nkvs (str ''inputs'') (JObj (assign ins (str ''seed'') (parseInt sd))))"
  have "seed_node sd (JObj nodes) nodeId = Inr (JObj nodes)
        \<or> seed_node sd (JObj nodes) nodeId = Inr (JObj (assign nodes nodeId ?n'))"
    using n nn
    by (simp add: seed_node_def Let_def and_then_def member_def has_in_def put_def store_def truthy_opt_def)
  moreover have "list_all (\<lambda>kn. well_formed_node (snd kn)) (assign nodes nodeId ?n')"
    using list_all_assign[OF assms(1) well_formed_node_inputs] by simp
  moreover have "map fst (assign nodes nodeId ?n') = map fst nodes"
    using assms(2) by (rule keys_assign)
  ultimately show ?thesis using assms(1) by auto
qed

lemma seed_nodes_ok:
  "list_all (\<lambda>kn. well_formed_node (snd kn)) nodes \<Longrightarrow> set ids \<subseteq> set (map fst nodes)
   \<Longrightarrow> \<exists>nodes'. seed_nodes sd ids (JObj nodes) = Inr (JObj nodes')
         \<and> list_all (\<lambda>kn. well_formed_node (snd kn)) nodes'"
proof (induction ids arbitrary: nodes)
  case Nil
  then show ?case by simp
next
  case (Cons nodeId ids)
  have "map_of nodes nodeId \<noteq> None" using Cons.prems(2) by (simp add: map_of_eq_None_iff)
  from seed_node_ok[OF Cons.prems(1) this, of sd] obtain nodes1 where
    s: "seed_node sd (JObj nodes) nodeId = Inr (JObj nodes1)"
       "list_all (\<lambda>kn. well_formed_node (snd kn)) nodes1" "map fst nodes1 = map fst nodes"
    by blast
  have "set ids \<subseteq> set (map fst nodes1)" using Cons.prems(2) s(3) by simp
  from Cons.IH[OF s(2) this] show ?case using s(1) by (simp add: and_then_def)
qed

lemma inject_seed_ok:
  assumes "well_formed_template pw" and "ins \<noteq> JNull"
  shows "\<exists>pw'. inject_seed pw (Some ins) = Inr pw'"
proof -
  from well_formed_templateD[OF assms(1)] obtain kvs where pw: "pw = JObj kvs"
    and pr: "map_of kvs (str ''prompt'') = None
        \<or> (\<exists>nodes. map_of kvs (str ''prompt'') = Some (JObj nodes)
              \<and> list_all (\<lambda>kn. well_formed_node (snd kn)) nodes)"
    by blast
  have m: "member (Some ins) (str ''seed'') = Inr (own ins (str ''seed''))"
    using assms(2) by (cases ins) (simp_all add: member_def)
  show ?thesis
  proof (cases "map_of kvs (str ''prompt'')")
    case None
    then show ?thesis using pw m
      by (auto simp: inject_seed_def and_then_def member_def split: option.splits)
  next
    case (Some p)
    with pr obtain nodes where p: "p = JObj nodes"
      and nodes: "list_all (\<lambda>kn. well_formed_node (snd kn)) nodes"
      by auto
    show ?thesis
    proof (cases "own ins (str ''seed'')")
      case None
      then show ?thesis using m by (simp add: inject_seed_def and_then_def)
    next
      case sd: (Some sd)
      from seed_nodes_ok[OF nodes, of "map fst nodes" sd] obtain nodes' where
        "seed_nodes sd (keys (JObj nodes)) (JObj nodes) = Inr (JObj nodes')"
        by auto
      then show ?thesis using pw m Some p sd
        by (simp add: inject_seed_def and_then_def member_def)
    qed
  qed
qed

subsection \<open>The seed step\<close>

declare dec.simps [simp del]

lemma dec_digits: "c \<in> set (dec m) \<Longrightarrow> 48 \<le> c \<and> c \<le> 57"
proof (induction m arbitrary: c rule: dec.induct)
  case (1 n)
  show ?case
  proof (cases "n < 10")
    case True
    then show ?thesis using "1.prems" by (simp add: dec.simps[of n])
  next
    case False
    then have "c \<in> set (dec (n div 10)) \<or> c = 48 + n mod 10"
      using "1.prems" by (auto simp: dec.simps[of n])
    then show ?thesis
    proof
      assume "c \<in> set (dec (n div 10))"
      then show ?thesis using "1.IH"[OF False] by simp
    next
      assume "c = 48 + n mod 10"
      moreover have "n mod 10 < 10" by simp
      ultimately show ?thesis by linarith
    qed
  qed
qed

lemma dec_not_empty: "dec m \<noteq> []"
  by (cases "m < 10") (simp_all add: dec.simps[of m])

lemma dec_value: "foldl (\<lambda>a c. 10 * a + (case digit_value c of None \<Rightarrow> 0 | Some d \<Rightarrow> d)) 0 (dec m) = m"
proof (induction m rule: dec.induct)
  case (1 n)
  show ?case
  proof (cases "n < 10")
    case True
    then show ?thesis by (simp add: dec.simps[of n] digit_value_def)
  next
    case False
    have "n mod 10 < 10" by simp
    then have d: "digit_value (48 + n mod 10) = Some (n mod 10)"
      by (simp add: digit_value_def)
    show ?thesis using "1.IH"[OF False] False d by (simp add: dec.simps[of n])
  qed
qed

lemma takeWhile_digits: "takeWhile (in_radix 10) (dec m) = dec m"
proof -
  have "\<And>c. c \<in> set (dec m) \<Longrightarrow> in_radix 10 c"
    using dec_digits by (fastforce simp: in_radix_def digit_value_def)
  then show ?thesis by simp
qed

lemma numeral_value_dec: "numeral_value 10 (dec m) = JNum (int m)"
  by (simp add: numeral_value_def takeWhile_digits dec_not_empty dec_value Let_def)

lemma unsigned_value_dec: "unsigned_value (dec m) = JNum (int m)"
proof -
  obtain c cs where s: "dec m = c # cs" using dec_not_empty[of m] by (cases "dec m") auto
  have "\<not> starts_with (dec m) (str ''0x'') \<and> \<not> starts_with (dec m) (str ''0X'')"
  proof (cases cs)
    case Nil
    then show ?thesis using s by (simp add: str_def)
  next
    case (Cons c' cs')
    then have "c' \<in> set (dec m)" using s by simp
    then have "48 \<le> c' \<and> c' \<le> 57" by (rule dec_digits)
    then show ?thesis using s Cons by (auto simp: str_def)
  qed
  then show ?thesis by (simp add: unsigned_value_def numeral_value_dec)
qed

lemma dropWhile_space_dec: "dropWhile is_space (dec m) = dec m"
proof -
  obtain c cs where s: "dec m = c # cs" using dec_not_empty[of m] by (cases "dec m") auto
  then have "c \<in> set (dec m)" by simp
  then have "48 \<le> c \<and> c \<le> 57" by (rule dec_digits)
  then have "\<not> is_space c" by (auto simp: is_space_def)
  then show ?thesis using s by simp
qed

text \<open>\<open>parseInt\<close> reads an integer back from its decimal rendering.\<close>

lemma parseInt_int: "parseInt (JNum n) = JNum n"
proof (cases "n < 0")
  case True
  have "\<not> is_space 45" by (simp add: is_space_def)
  then show ?thesis using True
    by (simp add: parseInt_def show_int_def unsigned_value_dec negate_def)
next
  case False
  obtain c cs where s: "dec (nat n) = c # cs"
    using dec_not_empty[of "nat n"] by (cases "dec (nat n)") auto
  then have "c \<in> set (dec (nat n))" by simp
  then have c: "48 \<le> c \<and> c \<le> 57" by (rule dec_digits)
  have "parseInt (JNum n) = unsigned_value (dec (nat n))"
    using False s c dropWhile_space_dec[of "nat n"] by (simp add: parseInt_def show_int_def)
  then show ?thesis using False by (simp add: unsigned_value_dec)
qed

lemma map_of_assign_other: "k' \<noteq> k \<Longrightarrow> map_of (assign kvs k v) k' = map_of kvs k'"
  by (induction kvs) auto

lemma seeded_sampler:
  assumes "well_formed_node nd" and "is_sampler nd"
  shows "node_seed (seeded v nd) = Some v \<and> is_sampler (seeded v nd) \<and> well_formed_node (seeded v nd)"
proof -
  from well_formed_nodeD[OF assms(1)] obtain kvs ins where
    nd: "nd = JObj kvs" "map_of kvs (str ''inputs'') = Some (JObj ins)" by blast
  have ne: "str ''class_type'' \<noteq> str ''inputs''" by (simp add: str_def)
  show ?thesis using assms(2) nd ne
    by (simp add: seeded_def is_sampler_def node_seed_def well_formed_node_def map_of_assign_other)
qed

lemma seed_node_seeded:
  assumes "well_formed_node nd" and "map_of nodes k = Some nd"
  shows "seed_node sd (JObj nodes) k = Inr (JObj (assign nodes k (seeded (parseInt sd) nd)))
         \<or> (\<not> is_sampler nd \<and> seed_node sd (JObj nodes) k = Inr (JObj nodes))"
proof -
  from well_formed_nodeD[OF assms(1)] obtain kvs ins where
    nd: "nd = JObj kvs" "map_of kvs (str ''inputs'') = Some (JObj ins)" by blast
  show ?thesis
  proof (cases "is_sampler nd")
    case True
    then have "seed_node sd (JObj nodes) k = Inr (JObj (assign nodes k (seeded (parseInt sd) nd)))"
      using nd assms(2)
      by (simp add: seed_node_def Let_def and_then_def member_def has_in_def put_def store_def
          truthy_opt_def is_sampler_def seeded_def)
    then show ?thesis by simp
  next
    case False
    then have "seed_node sd (JObj nodes) k = Inr (JObj nodes)"
      using nd assms(2)
      by (auto simp: seed_node_def Let_def and_then_def member_def has_in_def put_def store_def
          truthy_opt_def is_sampler_def)
    then show ?thesis using False by simp
  qed
qed

lemma assign_middle:
  "k \<notin> set (map fst pre) \<Longrightarrow> assign (pre @ (k, v) # post) k v' = pre @ (k, v') # post"
  by (induction pre) auto

lemma map_of_middle:
  "k \<notin> set (map fst pre) \<Longrightarrow> map_of (pre @ (k, v) # post) k = Some v"
  by (induction pre) auto

lemma seed_nodes_broadcast_aux:
  "distinct (map fst (pre @ todo)) \<Longrightarrow> list_all (\<lambda>kn. well_formed_node (snd kn)) todo
   \<Longrightarrow> seed_nodes sd (map fst todo) (JObj (pre @ todo))
       = Inr (JObj (pre @ map (\<lambda>kn. (fst kn, seeded (parseInt sd) (snd kn))) todo))"
proof (induction todo arbitrary: pre)
  case Nil
  then show ?case by simp
next
  case (Cons kn todo)
  obtain k nd where kn: "kn = (k, nd)" by (cases kn)
  have k: "k \<notin> set (map fst pre)" using Cons.prems(1) kn by auto
  have wf: "well_formed_node nd" using Cons.prems(2) kn by simp
  have m: "map_of (pre @ (k, nd) # todo) k = Some nd" using k by (rule map_of_middle)
  have step: "seed_node sd (JObj (pre @ (k, nd) # todo)) k
                = Inr (JObj (pre @ (k, seeded (parseInt sd) nd) # todo))"
  proof -
    from seed_node_seeded[OF wf m, of sd] show ?thesis
    proof
      assume "seed_node sd (JObj (pre @ (k, nd) # todo)) k
                = Inr (JObj (assign (pre @ (k, nd) # todo) k (seeded (parseInt sd) nd)))"
      then show ?thesis using assign_middle[OF k] by simp
    next
      assume "\<not> is_sampler nd \<and> seed_node sd (JObj (pre @ (k, nd) # todo)) k
                = Inr (JObj (pre @ (k, nd) # todo))"
      then show ?thesis by (simp add: seeded_def)
    qed
  qed
  have d: "distinct (map fst ((pre @ [(k, seeded (parseInt sd) nd)]) @ todo))"
    using Cons.prems(1) kn by simp
  have rest: "list_all (\<lambda>kn. well_formed_node (snd kn)) todo" using Cons.prems(2) by simp
  from Cons.IH[OF d rest] step show ?case using kn by (simp add: and_then_def)
qed

lemma seed_nodes_broadcast:
  "distinct (map fst nodes) \<Longrightarrow> list_all (\<lambda>kn. well_formed_node (snd kn)) nodes
   \<Longrightarrow> seed_nodes sd (map fst nodes) (JObj nodes)
       = Inr (JObj (map (\<lambda>kn. (fst kn, seeded (parseInt sd) (snd kn))) nodes))"
  using seed_nodes_broadcast_aux[of "[]" nodes sd] by simp

text \<open>
  The seed step on a well-formed template with a truthy seed: every node of the prompt
  that is a \<open>KSampler\<close> with a seed gets the parsed seed, and the other nodes are kept.
\<close>

lemma inject_seed_broadcast:
  assumes "well_formed_template pw" and "distinct (map fst (prompt_nodes pw))"
    and "own ins (str ''seed'') = Some sd" and "truthy sd" and "own pw (str ''prompt'') \<noteq> None"
  shows "\<exists>pw'. inject_seed pw (Some ins) = Inr pw'
           \<and> prompt_nodes pw'
               = map (\<lambda>kn. (fst kn, seeded (parseInt sd) (snd kn))) (prompt_nodes pw)"
proof -
  from well_formed_templateD[OF assms(1)] assms(5) obtain kvs nodes where
    pw: "pw = JObj kvs" "map_of kvs (str ''prompt'') = Some (JObj nodes)"
    and nodes: "list_all (\<lambda>kn. well_formed_node (snd kn)) nodes"
    by auto
  have ins: "ins \<noteq> JNull" using assms(3) by auto
  have m: "member (Some ins) (str ''seed'') = Inr (Some sd)"
    using member_non_null[OF ins] assms(3) by simp
  have d: "distinct (map fst nodes)" using assms(2) pw by (simp add: prompt_nodes_def)
  have "inject_seed pw (Some ins)
          = Inr (JObj (assign kvs (str ''prompt'')
                   (JObj (map (\<lambda>kn. (fst kn, seeded (parseInt sd) (snd kn))) nodes))))"
    using pw m assms(4) seed_nodes_broadcast[OF d nodes, of sd]
    by (simp add: inject_seed_def and_then_def member_def store_def)
  then show ?thesis using pw by (simp add: prompt_nodes_def)
qed

lemma seed_broadcast_nonzero:
  assumes "well_formed_template pw" and "distinct (map fst (prompt_nodes pw))"
    and "own ins (str ''seed'') = Some (JNum n)" and "n \<noteq> 0"
    and "(k, nd) \<in> set (prompt_nodes pw)" and "is_sampler nd"
  shows "\<exists>pw' nd'. inject_seed pw (Some ins) = Inr pw' \<and> map_of (prompt_nodes pw') k = Some nd'
           \<and> is_sampler nd' \<and> node_seed nd' = Some (JNum n)"
proof -
  have p: "own pw (str ''prompt'') \<noteq> None"
    using assms(5) by (cases "own pw (str ''prompt'')") (simp_all add: prompt_nodes_def)
  from inject_seed_broadcast[OF assms(1,2,3) _ p] assms(4) obtain pw' where
    r: "inject_seed pw (Some ins) = Inr pw'"
       "prompt_nodes pw' = map (\<lambda>kn. (fst kn, seeded (JNum n) (snd kn))) (prompt_nodes pw)"
    by (auto simp: parseInt_int)
  have wf: "well_formed_node nd"
    using well_formed_templateD[OF assms(1)] assms(5)
    by (fastforce simp: prompt_nodes_def list_all_iff)
  have "(k, seeded (JNum n) nd) \<in> set (prompt_nodes pw')" using r(2) assms(5) by force
  moreover have "distinct (map fst (prompt_nodes pw'))" using r(2) assms(2) by (simp add: comp_def)
  ultimately have "map_of (prompt_nodes pw') k = Some (seeded (JNum n) nd)" by simp
  then show ?thesis using r(1) seeded_sampler[OF wf assms(6), of "JNum n"] by blast
qed

lemmas inject_eval =
  injectWorkflowParameters_def inject_by_name_def generic_inputs_def set_node_text_def
  fashion_sketch_text_def negative_text_def inject_seed_def seed_node_def has_in_def store_def
  put_def parseInt_def unsigned_value_def numeral_value_def in_radix_def digit_value_def
  is_space_def show_int_def dec.simps negate_def template1_def Let_def js_eval

text \<open>
  Claim C5, at a failing input.  The request carries the numeric seed 0 and the template
  has a \<open>KSampler\<close> node whose seed is 42.  The test \<open>inputs.seed && ...\<close> takes the seed 0
  for an absent seed, and the node keeps its seed 42.  With the seed 7 the same node
  receives the seed 7.
\<close>

theorem seed_zero_is_not_injected:
  "snd (injectWorkflowParameters template1 (str ''fashion-sketch'')
          (Some (JObj [(str ''seed'', JNum 0)])))
     = Inr (JObj [(str ''prompt'', JObj [
         (str ''3'', JObj [(str ''class_type'', JStr (str ''KSampler'')),
                           (str ''inputs'', JObj [(str ''seed'', JNum 42), (str ''steps'', JNum 20)])]),
         (str ''6'', JObj [(str ''class_type'', JStr (str ''CLIPTextEncode'')),
                           (str ''inputs'', JObj [(str ''text'', JStr (str ''fashion sketch''))])])])])
   \<and> snd (injectWorkflowParameters template1 (str ''fashion-sketch'')
          (Some (JObj [(str ''seed'', JNum 7)])))
     = Inr (JObj [(str ''prompt'', JObj [
         (str ''3'', JObj [(str ''class_type'', JStr (str ''KSampler'')),
                           (str ''inputs'', JObj [(str ''seed'', JNum 7), (str ''steps'', JNum 20)])]),
         (str ''6'', JObj [(str ''class_type'', JStr (str ''CLIPTextEncode'')),
                           (str ''inputs'', JObj [(str ''text'', JStr (str ''fashion sketch''))])])])])"
  by (simp add: inject_eval)

text \<open>
  Claim C9.  For a workflow name outside the known ones, a well-formed template and
  inputs that are not null, the injector does not fail: it writes the warning for the
  unknown workflow and returns a job description.  The default case of the switch
  applies one parameter, \<open>prompt_text\<close>: it assigns it to the text of node 6 when it is
  present and truthy, and leaves the copy of the template as it is otherwise.  (The seed
  is injected after the switch, for every workflow name.)
\<close>

theorem unknown_workflow_generic_path:
  assumes "workflowName \<notin> set known_workflows" and "well_formed_template w" and "ins \<noteq> JNull"
  shows "(\<exists>w'. injectWorkflowParameters w workflowName (Some ins)
                = ([UnknownWorkflow workflowName], Inr w'))
         \<and> inject_by_name (json_copy w) workflowName (Some ins)
           = ([UnknownWorkflow workflowName],
              case own ins (str ''prompt_text'') of
                None \<Rightarrow> Inr (json_copy w)
              | Some t \<Rightarrow> if truthy t then set_node_text (json_copy w) (str ''6'') (Inr t)
                          else Inr (json_copy w))"
proof -
  have unknown: "workflowName \<noteq> str ''fashion-sketch''"
    "workflowName \<noteq> str ''pattern-generation''" "workflowName \<noteq> str ''model-visualization''"
    using assms(1) by (auto simp: known_workflows_def)
  have m: "member (Some ins) (str ''prompt_text'') = Inr (own ins (str ''prompt_text''))"
    using assms(3) by (rule member_non_null)
  have sw: "inject_by_name (json_copy w) workflowName (Some ins)
          = ([UnknownWorkflow workflowName], generic_inputs (json_copy w) (Some ins))"
    using unknown by (simp add: inject_by_name_def)
  have g: "generic_inputs (json_copy w) (Some ins)
           = (case own ins (str ''prompt_text'') of
                None \<Rightarrow> Inr (json_copy w)
              | Some t \<Rightarrow> if truthy t then set_node_text (json_copy w) (str ''6'') (Inr t)
                          else Inr (json_copy w))"
    using m by (simp add: generic_inputs_def and_then_def split: option.splits)
  have wf: "well_formed_template (json_copy w)"
    using assms(2) by (rule well_formed_template_copy)
  have "\<exists>pw. generic_inputs (json_copy w) (Some ins) = Inr pw \<and> well_formed_template pw"
    using set_node_text_ok[OF wf] wf m
    by (auto simp: generic_inputs_def and_then_def split: option.splits)
  then obtain pw where pw: "generic_inputs (json_copy w) (Some ins) = Inr pw"
    "well_formed_template pw"
    by blast
  from inject_seed_ok[OF pw(2) assms(3)] obtain w' where "inject_seed pw (Some ins) = Inr w'"
    by blast
  then have "\<exists>w'. injectWorkflowParameters w workflowName (Some ins)
                = ([UnknownWorkflow workflowName], Inr w')"
    using sw pw by (simp add: injectWorkflowParameters_def and_then_def)
  then show ?thesis using sw g by simp
qed

theorem unknown_workflow_generic_path_witness:
  "str ''other'' \<notin> set known_workflows \<and> well_formed_template template1
   \<and> injectWorkflowParameters template1 (str ''other'')
        (Some (JObj [(str ''prompt_text'', JStr (str ''hi'')), (str ''prompt'', JStr (str ''no''))]))
     = ([UnknownWorkflow (str ''other'')],
        Inr (JObj [(str ''prompt'', JObj [
         (str ''3'', JObj [(str ''class_type'', JStr (str ''KSampler'')),
                           (str ''inputs'', JObj [(str ''seed'', JNum 42), (str ''steps'', JNum 20)])]),
         (str ''6'', JObj [(str ''class_type'', JStr (str ''CLIPTextEncode'')),
                           (str ''inputs'', JObj [(str ''text'', JStr (str ''hi''))])])])]))"
proof -
  have u: "str ''other'' \<notin> set known_workflows" by (simp add: known_workflows_def str_def)
  have wf: "well_formed_template template1"
    by (simp add: well_formed_template_def well_formed_node_def template1_def str_def)
  have n: "JObj [(str ''prompt_text'', JStr (str ''hi'')), (str ''prompt'', JStr (str ''no''))]
             \<noteq> JNull"
    by simp
  have r: "snd (injectWorkflowParameters template1 (str ''other'')
        (Some (JObj [(str ''prompt_text'', JStr (str ''hi'')), (str ''prompt'', JStr (str ''no''))])))
     = Inr (JObj [(str ''prompt'', JObj [
         (str ''3'', JObj [(str ''class_type'', JStr (str ''KSampler'')),
                           (str ''inputs'', JObj [(str ''seed'', JNum 42), (str ''steps'', JNum 20)])]),
         (str ''6'', JObj [(str ''class_type'', JStr (str ''CLIPTextEncode'')),
                           (str ''inputs'', JObj [(str ''text'', JStr (str ''hi''))])])])])"
    by (simp add: inject_eval)
  show ?thesis
    using unknown_workflow_generic_path [OF u wf n] u wf r by auto
qed

section \<open>The injector does not write to the template\<close>

lemma ref_in_mono: "ref_in n m v \<Longrightarrow> n' \<le> n \<Longrightarrow> m \<le> m' \<Longrightarrow> ref_in n' m' v"
  by (cases v) simp_all

lemma ref_in_embed [simp]: "ref_in n m (input_value v)"
  by (cases v) simp_all

lemma list_all_ref_in_mono:
  "list_all (ref_in n m) vs \<Longrightarrow> n' \<le> n \<Longrightarrow> m \<le> m' \<Longrightarrow> list_all (ref_in n' m') vs"
  by (auto simp: list_all_iff intro: ref_in_mono)

lemma closed_from_snoc:
  assumes "closed_from n h" and "list_all (ref_in n (Suc (length h))) (cell_values c)"
  shows "closed_from n (h @ [c])"
  unfolding closed_from_def
proof (intro allI impI)
  fix a assume a: "n \<le> a \<and> a < length (h @ [c])"
  show "list_all (ref_in n (length (h @ [c]))) (cell_values ((h @ [c]) ! a))"
  proof (cases "a < length h")
    case True
    then have "list_all (ref_in n (length h)) (cell_values (h ! a))"
      using assms(1) a by (simp add: closed_from_def)
    then have "list_all (ref_in n (Suc (length h))) (cell_values (h ! a))"
      by (rule list_all_ref_in_mono) simp_all
    then show ?thesis using True by (simp add: nth_append)
  next
    case False
    then have "a = length h" using a by simp
    then show ?thesis using assms(2) by simp
  qed
qed

lemma parse_ok_refl: "parse_ok h [] h"
  by (simp add: parse_ok_def)

lemma parse_ok_prim: "ref_in (length h) (length h) v \<Longrightarrow> parse_ok h [v] h"
  by (simp add: parse_ok_def)

lemma parse_ok_cell:
  assumes "parse_ok h (cell_values c) h1"
  shows "parse_ok h [HRef (length h1)] (h1 @ [c])"
proof -
  have "\<forall>n \<le> length h. closed_from n h \<longrightarrow> closed_from n (h1 @ [c])"
  proof (intro allI impI)
    fix n assume n: "n \<le> length h" and c: "closed_from n h"
    have c1: "closed_from n h1" using assms n c by (simp add: parse_ok_def)
    have "list_all (ref_in (length h) (length h1)) (cell_values c)"
      using assms by (simp add: parse_ok_def)
    then have "list_all (ref_in n (Suc (length h1))) (cell_values c)"
      by (rule list_all_ref_in_mono) (use n in simp_all)
    then show "closed_from n (h1 @ [c])" using c1 by (intro closed_from_snoc) simp_all
  qed
  then show ?thesis using assms by (simp add: parse_ok_def)
qed

lemma parse_ok_seq:
  assumes "parse_ok h [v] h1" and "parse_ok h1 vs h2"
  shows "parse_ok h (v # vs) h2"
proof -
  have l: "length h \<le> length h1" "length h1 \<le> length h2" using assms by (simp_all add: parse_ok_def)
  have t1: "take (length h) h1 = h" and t2: "take (length h1) h2 = h1"
    using assms by (simp_all add: parse_ok_def)
  have "take (length h) h2 = take (length h) (take (length h1) h2)" using l by (simp add: min_def)
  then have t: "take (length h) h2 = h" using t1 t2 by simp
  have "ref_in (length h) (length h1) v" using assms(1) by (simp add: parse_ok_def)
  then have rv: "ref_in (length h) (length h2) v"
    by (rule ref_in_mono) (use l in simp_all)
  have "list_all (ref_in (length h1) (length h2)) vs" using assms(2) by (simp add: parse_ok_def)
  then have rvs: "list_all (ref_in (length h) (length h2)) vs"
    by (rule list_all_ref_in_mono) (use l in simp_all)
  have "\<forall>n \<le> length h. closed_from n h \<longrightarrow> closed_from n h2"
  proof (intro allI impI)
    fix n assume n: "n \<le> length h" and c: "closed_from n h"
    have "closed_from n h1" using assms(1) n c by (simp add: parse_ok_def)
    moreover have "n \<le> length h1" using l n by simp
    ultimately show "closed_from n h2" using assms(2) by (simp add: parse_ok_def)
  qed
  then show ?thesis using l t rv rvs by (simp add: parse_ok_def)
qed

lemma parse_frame:
  "parse_ok h [fst (parseH j h)] (snd (parseH j h))"
  "parse_ok h (fst (parse_elements xs h)) (snd (parse_elements xs h))"
  "parse_ok h (map snd (fst (parse_fields kvs h))) (snd (parse_fields kvs h))"
proof (induction j h and xs h and kvs h rule: parseH_parse_elements_parse_fields.induct)
  case (6 xs h)
  then show ?case using parse_ok_cell[of h "Elements (fst (parse_elements xs h))" "snd (parse_elements xs h)"]
    by (simp add: split_beta)
next
  case (7 kvs h)
  then show ?case using parse_ok_cell[of h "Fields (fst (parse_fields kvs h))" "snd (parse_fields kvs h)"]
    by (simp add: split_beta)
next
  case (9 x xs h)
  have "parse_ok (snd (parseH x h)) (fst (parse_elements xs (snd (parseH x h)))) (snd (parse_elements xs (snd (parseH x h))))"
    using "9.IH"(2)[of "fst (parseH x h)" "snd (parseH x h)"] by simp
  with "9.IH"(1) show ?case using parse_ok_seq by (simp add: split_beta)
next
  case (11 k x kvs h)
  have "parse_ok (snd (parseH x h)) (map snd (fst (parse_fields kvs (snd (parseH x h))))) (snd (parse_fields kvs (snd (parseH x h))))"
    using "11.IH"(2)[of "fst (parseH x h)" "snd (parseH x h)"] by simp
  with "11.IH"(1) show ?case using parse_ok_seq by (simp add: split_beta)
qed (simp_all add: parse_ok_refl parse_ok_prim)

lemma kept_refl: "closed_from n h \<Longrightarrow> kept n h h"
  by (simp add: kept_def)

lemma kept_trans: "kept n h h1 \<Longrightarrow> kept n h1 h2 \<Longrightarrow> kept n h h2"
  by (simp add: kept_def)

lemma set_assignH_pairs: "set (assignH kvs k v) \<subseteq> insert (k, v) (set kvs)"
  by (induction kvs) (auto split: if_splits)

lemma set_assignH: "set (map snd (assignH kvs k v)) \<subseteq> insert v (set (map snd kvs))"
  using set_assignH_pairs[of kvs k v] by force

lemma closed_from_update:
  assumes "closed_from n h" and "a < length h"
    and "list_all (ref_in n (length h)) (cell_values c)"
  shows "closed_from n (h[a := c])"
  unfolding closed_from_def
proof (intro allI impI)
  fix b assume b: "n \<le> b \<and> b < length (h[a := c])"
  show "list_all (ref_in n (length (h[a := c]))) (cell_values (h[a := c] ! b))"
  proof (cases "b = a")
    case True
    then show ?thesis using assms(2,3) by simp
  next
    case False
    then show ?thesis using assms(1) b by (simp add: closed_from_def)
  qed
qed

lemma closed_cell:
  "closed_from n h \<Longrightarrow> n \<le> a \<Longrightarrow> a < length h
   \<Longrightarrow> list_all (ref_in n (length h)) (cell_values (h ! a))"
  by (simp add: closed_from_def)

lemma ownH_ref:
  assumes "closed_from n h" and "ref_in n (length h) base" and "ownH h base k = Some v"
  shows "ref_in n (length h) v"
proof (cases base)
  case (HRef a)
  then have a: "n \<le> a" "a < length h" using assms(2) by simp_all
  have vals: "list_all (ref_in n (length h)) (cell_values (h ! a))"
    using assms(1) a by (rule closed_cell)
  show ?thesis
  proof (cases "h ! a")
    case (Fields kvs)
    then have "map_of kvs k = Some v" using assms(3) HRef a by simp
    then have "v \<in> set (map snd kvs)" by (metis map_of_SomeD image_eqI set_map snd_conv)
    then show ?thesis using vals Fields by (auto simp: list_all_iff)
  next
    case (Elements vs)
    then show ?thesis using assms(3) HRef a vals
      by (auto simp: list_all_iff split: option.splits if_splits)
  qed
next
  case (HStr s)
  then show ?thesis using assms(3) by (auto split: option.splits if_splits)
next
  case (HData d)
  then show ?thesis using assms(3) by auto
qed (use assms(3) in simp_all)

lemma memberH_ownH: "memberH h (Some base) k = Inr r \<Longrightarrow> r = ownH h base k"
  by (cases base) (simp_all add: memberH_def)

lemma memberH_ref:
  assumes "closed_from n h" and "ref_in n (length h) base"
    and "memberH h (Some base) k = Inr (Some v)"
  shows "ref_in n (length h) v"
proof -
  have "ownH h base k = Some v" using memberH_ownH[OF assms(3)] by simp
  with assms(1,2) show ?thesis by (rule ownH_ref)
qed

lemma putH_kept:
  assumes "closed_from n h" and "ref_in n (length h) base" and "ref_in n (length h) v"
    and "putH h (Some base) k v = Inr h'"
  shows "kept n h h'"
proof (cases base)
  case (HRef a)
  then have a: "n \<le> a" "a < length h" using assms(2) by simp_all
  have vals: "list_all (ref_in n (length h)) (cell_values (h ! a))"
    using assms(1) a by (rule closed_cell)
  have upd: "\<And>c. list_all (ref_in n (length h)) (cell_values c) \<Longrightarrow> kept n h (h[a := c])"
    using assms(1) a by (simp add: kept_def closed_from_update)
  show ?thesis
  proof (cases "h ! a")
    case (Fields kvs)
    have "list_all (ref_in n (length h)) (cell_values (Fields (assignH kvs k v)))"
      using vals Fields assms(3) set_assignH_pairs[of kvs k v] by (auto simp: list_all_iff)
    then have "kept n h (h[a := Fields (assignH kvs k v)])" by (rule upd)
    moreover have "h' = h[a := Fields (assignH kvs k v)]"
      using assms(4) HRef a Fields by (simp add: putH_def)
    ultimately show ?thesis by simp
  next
    case (Elements vs)
    show ?thesis
    proof (cases "array_index k")
      case None
      then show ?thesis using assms(1,4) HRef a Elements by (simp add: putH_def kept_refl)
    next
      case (Some i)
      have 1: "list_all (ref_in n (length h)) (cell_values (Elements (vs[i := v])))"
        using vals Elements assms(3) set_update_subset_insert[of vs i v] by (auto simp: list_all_iff)
      have 2: "list_all (ref_in n (length h))
                 (cell_values (Elements (vs @ replicate (i - length vs) HNull @ [v])))"
        using vals Elements assms(3) by (auto simp: list_all_iff)
      have "h' = h[a := Elements (vs[i := v])]
            \<or> h' = h[a := Elements (vs @ replicate (i - length vs) HNull @ [v])]"
        using assms(4) HRef a Elements Some by (auto simp: putH_def split: if_splits)
      then show ?thesis using upd[OF 1] upd[OF 2] by auto
    qed
  qed
next
  case (HData d)
  then show ?thesis using assms(1,4) by (simp add: putH_def kept_refl)
qed (use assms(4) in \<open>simp_all add: putH_def\<close>)

lemma set_node_textH_kept:
  assumes "closed_from n h" and "ref_in n (length h) pw"
  shows "kept n h (fst (set_node_textH h pw node rhs))"
proof -
  have k0: "kept n h h" using assms(1) by (rule kept_refl)
  show ?thesis
  proof (cases "memberH h (Some pw) (str ''prompt'')")
    case (Inl e)
    then show ?thesis using k0 by (simp add: set_node_textH_def)
  next
    case (Inr prompt)
    show ?thesis
    proof (cases prompt)
      case None
      then show ?thesis using k0 Inr by (simp add: set_node_textH_def)
    next
      case (Some p)
      have rp: "ref_in n (length h) p" using assms Inr Some by (auto dest: memberH_ref)
      show ?thesis
      proof (cases "memberH h (Some p) node")
        case (Inl e)
        then show ?thesis using k0 Inr Some by (simp add: set_node_textH_def)
      next
        case nd: (Inr nd)
        show ?thesis
        proof (cases nd)
          case None
          then show ?thesis using k0 Inr Some nd by (simp add: set_node_textH_def)
        next
          case n: (Some nn)
          have rn: "ref_in n (length h) nn" using assms(1) rp nd n by (auto dest: memberH_ref)
          show ?thesis
          proof (cases "memberH h (Some nn) (str ''inputs'')")
            case (Inl e)
            then show ?thesis using k0 Inr Some nd n by (simp add: set_node_textH_def)
          next
            case base: (Inr base)
            show ?thesis
            proof (cases base)
              case None
              then show ?thesis using k0 Inr Some nd n base
                by (simp add: set_node_textH_def putH_def split: sum.splits)
            next
              case b: (Some b)
              have rb: "ref_in n (length h) b" using assms(1) rn base b by (auto dest: memberH_ref)
              have "\<And>v h'. putH h (Some b) (str ''text'') (input_value v) = Inr h' \<Longrightarrow> kept n h h'"
                using assms(1) rb by (rule putH_kept) simp_all
              then show ?thesis using k0 Inr Some nd n base b
                by (auto simp: set_node_textH_def split: sum.splits)
            qed
          qed
        qed
      qed
    qed
  qed
qed

lemma kept_closed: "kept n h h' \<Longrightarrow> closed_from n h'"
  by (simp add: kept_def)

lemma kept_length: "kept n h h' \<Longrightarrow> length h' = length h"
  by (simp add: kept_def)

lemma seed_nodeH_kept:
  assumes "closed_from n h" and "ref_in n (length h) prompt"
  shows "kept n h (fst (seed_nodeH seed h prompt nodeId))"
proof -
  have k0: "kept n h h" using assms(1) by (rule kept_refl)
  show ?thesis
  proof (cases "ownH h prompt nodeId")
    case None
    then show ?thesis using k0 by (simp add: seed_nodeH_def Let_def memberH_def)
  next
    case (Some nd)
    have rn: "ref_in n (length h) nd" using assms Some by (rule ownH_ref)
    show ?thesis
    proof (cases "memberH h (Some nd) (str ''inputs'')")
      case (Inl e)
      then show ?thesis using k0 Some by (simp add: seed_nodeH_def Let_def split: sum.splits)
    next
      case (Inr ins)
      show ?thesis
      proof (cases ins)
        case None
        then show ?thesis using k0 Some Inr by (simp add: seed_nodeH_def Let_def split: sum.splits)
      next
        case i: (Some i)
        have ri: "ref_in n (length h) i" using assms(1) rn Inr i by (auto dest: memberH_ref)
        have "\<And>v h'. putH h (Some i) (str ''seed'') (input_value v) = Inr h' \<Longrightarrow> kept n h h'"
          using assms(1) ri by (rule putH_kept) simp_all
        then show ?thesis using k0 Some Inr i
          by (auto simp: seed_nodeH_def Let_def split: sum.splits)
      qed
    qed
  qed
qed

lemma seed_nodesH_kept:
  "closed_from n h \<Longrightarrow> ref_in n (length h) prompt
   \<Longrightarrow> kept n h (fst (seed_nodesH seed ids prompt h))"
proof (induction ids arbitrary: h)
  case Nil
  then show ?case by (simp add: kept_refl)
next
  case (Cons nodeId ids)
  obtain h1 r where s: "seed_nodeH seed h prompt nodeId = (h1, r)"
    by (cases "seed_nodeH seed h prompt nodeId")
  have k1: "kept n h h1" using seed_nodeH_kept[OF Cons.prems, of seed nodeId] s by simp
  show ?case
  proof (cases r)
    case (Inl e)
    then show ?thesis using s k1 by simp
  next
    case (Inr u)
    have "ref_in n (length h1) prompt" using Cons.prems(2) kept_length[OF k1] by simp
    then have "kept n h1 (fst (seed_nodesH seed ids prompt h1))"
      using Cons.IH kept_closed[OF k1] by simp
    then show ?thesis using s Inr k1 by (simp add: kept_trans[OF k1])
  qed
qed

lemma inject_seedH_kept:
  assumes "closed_from n h" and "ref_in n (length h) pw"
  shows "kept n h (fst (inject_seedH h pw inputs))"
proof -
  have k0: "kept n h h" using assms(1) by (rule kept_refl)
  have "\<And>p sd. memberH h (Some pw) (str ''prompt'') = Inr (Some p)
          \<Longrightarrow> kept n h (fst (seed_nodesH sd (keysH h p) p h))"
    using assms by (intro seed_nodesH_kept) (auto dest: memberH_ref)
  then show ?thesis using k0
    by (auto simp: inject_seedH_def split: sum.splits option.splits)
qed

lemma generic_inputsH_kept:
  assumes "closed_from n h" and "ref_in n (length h) pw"
  shows "kept n h (fst (generic_inputsH h pw inputs))"
  using set_node_textH_kept[OF assms] kept_refl[OF assms(1)]
  by (auto simp: generic_inputsH_def split: sum.splits option.splits)

lemma inject_by_nameH_kept:
  assumes "closed_from n h" and "ref_in n (length h) pw"
  shows "kept n h (fst (inject_by_nameH h pw workflowName inputs))"
proof -
  have one: "\<And>node rhs. kept n h (fst (set_node_textH h pw node rhs))"
    using assms by (rule set_node_textH_kept)
  have two: "kept n h (fst (set_node_textH (fst (set_node_textH h pw (str ''6'') (fashion_sketch_text inputs)))
                 pw (str ''7'') (negative_text inputs)))"
  proof -
    let ?h1 = "fst (set_node_textH h pw (str ''6'') (fashion_sketch_text inputs))"
    have k1: "kept n h ?h1" by (rule one)
    have "ref_in n (length ?h1) pw" using assms(2) kept_length[OF k1] by simp
    then have "kept n ?h1 (fst (set_node_textH ?h1 pw (str ''7'') (negative_text inputs)))"
      using kept_closed[OF k1] by (intro set_node_textH_kept)
    with k1 show ?thesis by (rule kept_trans)
  qed
  have three: "kept n h (fst (generic_inputsH h pw inputs))"
    using assms by (rule generic_inputsH_kept)
  consider (fs) "workflowName = str ''fashion-sketch''"
    | (pg) "workflowName \<noteq> str ''fashion-sketch''" "workflowName = str ''pattern-generation''"
    | (mv) "workflowName \<noteq> str ''fashion-sketch''" "workflowName \<noteq> str ''pattern-generation''"
           "workflowName = str ''model-visualization''"
    | (un) "workflowName \<noteq> str ''fashion-sketch''" "workflowName \<noteq> str ''pattern-generation''"
           "workflowName \<noteq> str ''model-visualization''"
    by blast
  then show ?thesis
  proof cases
    case fs
    obtain h1 r1 where s1: "set_node_textH h pw (str ''6'') (fashion_sketch_text inputs) = (h1, r1)"
      by (cases "set_node_textH h pw (str ''6'') (fashion_sketch_text inputs)")
    show ?thesis
    proof (cases r1)
      case (Inl e)
      then show ?thesis using fs s1 one[of "str ''6''" "fashion_sketch_text inputs"]
        by (simp add: inject_by_nameH_def)
    next
      case (Inr u)
      then show ?thesis using fs s1 two by (simp add: inject_by_nameH_def split_beta)
    qed
  next
    case pg
    then show ?thesis using one[of "str ''6''" "patternPrompt inputs"]
      by (simp add: inject_by_nameH_def split_beta)
  next
    case mv
    then show ?thesis using one[of "str ''6''" "modelPrompt inputs"]
      by (simp add: inject_by_nameH_def split_beta)
  next
    case un
    then show ?thesis using three by (simp add: inject_by_nameH_def split_beta)
  qed
qed

lemma those_map_Some:
  "those (map g xs) \<noteq> None \<Longrightarrow> x \<in> set xs \<Longrightarrow> g x \<noteq> None"
  by (induction xs) (auto split: option.splits)

lemma contents_kept:
  "contents f h v \<noteq> None \<Longrightarrow> take (length h) h' = h \<Longrightarrow> contents f h' v = contents f h v"
proof (induction f arbitrary: v)
  case 0
  then show ?case by (cases v) simp_all
next
  case (Suc f)
  show ?case
  proof (cases v)
    case (HRef a)
    then have a: "a < length h" using Suc.prems(1) by (simp split: if_splits)
    have "length (take (length h) h') = length h" using Suc.prems(2) by simp
    then have len: "length h \<le> length h'" by simp
    have same: "h' ! a = h ! a" using Suc.prems(2) a by (metis nth_take)
    show ?thesis
    proof (cases "h ! a")
      case (Fields kvs)
      have "\<And>kv. kv \<in> set kvs \<Longrightarrow> contents f h (snd kv) \<noteq> None"
      proof -
        fix kv assume kv: "kv \<in> set kvs"
        have "those (map (\<lambda>kv. map_option (Pair (fst kv)) (contents f h (snd kv))) kvs) \<noteq> None"
          using Suc.prems(1) HRef a Fields by (simp split: option.splits)
        from those_map_Some[OF this kv] show "contents f h (snd kv) \<noteq> None" by auto
      qed
      then have eq: "map (\<lambda>kv. map_option (Pair (fst kv)) (contents f h' (snd kv))) kvs
               = map (\<lambda>kv. map_option (Pair (fst kv)) (contents f h (snd kv))) kvs"
        using Suc.IH Suc.prems(2) by (intro map_cong) simp_all
      show ?thesis using HRef a len same Fields by (simp add: eq)
    next
      case (Elements vs)
      have "\<And>x. x \<in> set vs \<Longrightarrow> contents f h x \<noteq> None"
      proof -
        fix x assume x: "x \<in> set vs"
        have "those (map (contents f h) vs) \<noteq> None"
          using Suc.prems(1) HRef a Elements by (simp split: option.splits)
        from those_map_Some[OF this x] show "contents f h x \<noteq> None" .
      qed
      then have eq: "map (contents f h') vs = map (contents f h) vs"
        using Suc.IH Suc.prems(2) by (intro map_cong) simp_all
      show ?thesis using HRef a len same Elements by (simp add: eq)
    qed
  qed simp_all
qed

text \<open>
  Claim C8.  On the heap of objects the injector writes to cells of its copy only:
  whatever the heap, the template, the workflow name and the inputs, and whether or not
  an error is raised, the cells that existed before the call are unchanged afterwards
  (the heap before is a prefix of the heap after).  Hence the template read after the
  call has the contents it had before, and an object returned is a new one.
\<close>

theorem template_not_mutated:
  "take (length h) (fst (injectWorkflowParametersH h w workflowName inputs)) = h
   \<and> (\<forall>j. contents f h w = Some j
         \<longrightarrow> contents f (fst (injectWorkflowParametersH h w workflowName inputs)) w = Some j)
   \<and> (\<forall>a. snd (snd (injectWorkflowParametersH h w workflowName inputs)) = Inr (HRef a)
         \<longrightarrow> length h \<le> a)"
proof -
  let ?r = "injectWorkflowParametersH h w workflowName inputs"
  have main: "take (length h) (fst ?r) = h
     \<and> (\<forall>a. snd (snd ?r) = Inr (HRef a) \<longrightarrow> length h \<le> a)"
  proof (cases "stringify h w")
    case None
    then show ?thesis by (simp add: injectWorkflowParametersH_def)
  next
    case (Some document)
    obtain pw h1 where p: "parseH document h = (pw, h1)" by (cases "parseH document h")
    have ok: "parse_ok h [pw] h1" using parse_frame(1)[of h document] p by simp
    have c0: "closed_from (length h) h" by (auto simp: closed_from_def)
    have c1: "closed_from (length h) h1" using ok c0 by (simp add: parse_ok_def)
    have t1: "take (length h) h1 = h" using ok by (simp add: parse_ok_def)
    have r1: "ref_in (length h) (length h1) pw" using ok by (simp add: parse_ok_def)
    obtain h2 ws r2 where s: "inject_by_nameH h1 pw workflowName inputs = (h2, ws, r2)"
      by (cases "inject_by_nameH h1 pw workflowName inputs")
    have k2: "kept (length h) h1 h2" using inject_by_nameH_kept[OF c1 r1, of workflowName inputs] s by simp
    obtain h3 r3 where t: "inject_seedH h2 pw inputs = (h3, r3)" by (cases "inject_seedH h2 pw inputs")
    have "ref_in (length h) (length h2) pw" using r1 kept_length[OF k2] by simp
    then have k3: "kept (length h) h2 h3" using inject_seedH_kept[OF kept_closed[OF k2], of pw inputs] t by simp
    have t2: "take (length h) h2 = h" using k2 t1 by (simp add: kept_def)
    have t3: "take (length h) h3 = h" using k3 t2 by (simp add: kept_def)
    have fresh: "\<And>a. pw = HRef a \<Longrightarrow> length h \<le> a" using r1 by simp
    show ?thesis using Some p s t t2 t3 fresh
      by (auto simp: injectWorkflowParametersH_def split: sum.splits)
  qed
  then show ?thesis using contents_kept[of f h w "fst ?r"] by auto
qed

lemma heap1_eval:
  "heap1 =
     [Fields [(str ''seed'', HNum 42), (str ''steps'', HNum 20)],
      Fields [(str ''class_type'', HStr (str ''KSampler'')), (str ''inputs'', HRef 0)],
      Fields [(str ''text'', HStr (str ''x''))],
      Fields [(str ''class_type'', HStr (str ''CLIPTextEncode'')), (str ''inputs'', HRef 2)],
      Fields [(str ''3'', HRef 1), (str ''6'', HRef 3)],
      Fields [(str ''prompt'', HRef 4)]]
   \<and> workflow1 = HRef 5"
  by (simp add: heap1_def workflow1_def template1_def)

lemma contents_numeral:
  "contents (numeral k) h (HRef a) =
     (if a < length h then
        (case h ! a of
           Elements vs \<Rightarrow> map_option JArr (those (map (contents (pred_numeral k) h) vs))
         | Fields kvs \<Rightarrow>
             map_option JObj
               (those (map (\<lambda>kv. map_option (Pair (fst kv)) (contents (pred_numeral k) h (snd kv))) kvs)))
      else None)"
  by (simp add: numeral_eq_Suc)

lemmas heap_eval =
  injectWorkflowParametersH_def stringify_def inject_by_nameH_def set_node_textH_def
  generic_inputsH_def memberH_def putH_def inject_seedH_def seed_nodeH_def has_inH_def
  contents_numeral rethrow_def inputs1_def fashion_sketch_text_def negative_text_def
  parseInt_def unsigned_value_def numeral_value_def in_radix_def digit_value_def is_space_def
  show_int_def dec.simps negate_def Let_def js_eval

lemma template1_contents: "contents 4 heap1 workflow1 = Some template1"
  by (simp add: heap1_eval contents_numeral template1_def)

text \<open>A run on the heap: the six cells of the template, then the six cells of the copy.\<close>

lemma heap_run1:
  "injectWorkflowParametersH heap1 workflow1 (str ''fashion-sketch'') (Some inputs1)
     = (heap1 @
        [Fields [(str ''seed'', HNum 7), (str ''steps'', HNum 20)],
         Fields [(str ''class_type'', HStr (str ''KSampler'')), (str ''inputs'', HRef 6)],
         Fields [(str ''text'', HData (JArr [JStr (str ''a'')]))],
         Fields [(str ''class_type'', HStr (str ''CLIPTextEncode'')), (str ''inputs'', HRef 8)],
         Fields [(str ''3'', HRef 7), (str ''6'', HRef 9)],
         Fields [(str ''prompt'', HRef 10)]], [], Inr (HRef 11))"
  by (simp add: heap1_eval heap_eval)

text \<open>On this run the object returned has the contents that the injector on values returns.\<close>

lemma heap_run1_agrees:
  "contents 4 (fst (injectWorkflowParametersH heap1 workflow1 (str ''fashion-sketch'')
                     (Some inputs1))) (HRef 11)
     = Some (JObj [(str ''prompt'', JObj [
         (str ''3'', JObj [(str ''class_type'', JStr (str ''KSampler'')),
                           (str ''inputs'', JObj [(str ''seed'', JNum 7), (str ''steps'', JNum 20)])]),
         (str ''6'', JObj [(str ''class_type'', JStr (str ''CLIPTextEncode'')),
                           (str ''inputs'', JObj [(str ''text'', JArr [JStr (str ''a'')])])])])])
   \<and> snd (injectWorkflowParameters template1 (str ''fashion-sketch'') (Some inputs1))
     = Inr (JObj [(str ''prompt'', JObj [
         (str ''3'', JObj [(str ''class_type'', JStr (str ''KSampler'')),
                           (str ''inputs'', JObj [(str ''seed'', JNum 7), (str ''steps'', JNum 20)])]),
         (str ''6'', JObj [(str ''class_type'', JStr (str ''CLIPTextEncode'')),
                           (str ''inputs'', JObj [(str ''text'', JArr [JStr (str ''a'')])])])])])"
proof -
  have "contents 4 (heap1 @
        [Fields [(str ''seed'', HNum 7), (str ''steps'', HNum 20)],
         Fields [(str ''class_type'', HStr (str ''KSampler'')), (str ''inputs'', HRef 6)],
         Fields [(str ''text'', HData (JArr [JStr (str ''a'')]))],
         Fields [(str ''class_type'', HStr (str ''CLIPTextEncode'')), (str ''inputs'', HRef 8)],
         Fields [(str ''3'', HRef 7), (str ''6'', HRef 9)],
         Fields [(str ''prompt'', HRef 10)]]) (HRef 11)
     = Some (JObj [(str ''prompt'', JObj [
         (str ''3'', JObj [(str ''class_type'', JStr (str ''KSampler'')),
                           (str ''inputs'', JObj [(str ''seed'', JNum 7), (str ''steps'', JNum 20)])]),
         (str ''6'', JObj [(str ''class_type'', JStr (str ''CLIPTextEncode'')),
                           (str ''inputs'', JObj [(str ''text'', JArr [JStr (str ''a'')])])])])])"
    by (simp add: heap1_eval contents_numeral)
  then have a: "contents 4 (fst (injectWorkflowParametersH heap1 workflow1 (str ''fashion-sketch'')
                     (Some inputs1))) (HRef 11)
     = Some (JObj [(str ''prompt'', JObj [
         (str ''3'', JObj [(str ''class_type'', JStr (str ''KSampler'')),
                           (str ''inputs'', JObj [(str ''seed'', JNum 7), (str ''steps'', JNum 20)])]),
         (str ''6'', JObj [(str ''class_type'', JStr (str ''CLIPTextEncode'')),
                           (str ''inputs'', JObj [(str ''text'', JArr [JStr (str ''a'')])])])])])"
    by (simp only: heap_run1 fst_conv)
  have b: "snd (injectWorkflowParameters template1 (str ''fashion-sketch'') (Some inputs1))
     = Inr (JObj [(str ''prompt'', JObj [
         (str ''3'', JObj [(str ''class_type'', JStr (str ''KSampler'')),
                           (str ''inputs'', JObj [(str ''seed'', JNum 7), (str ''steps'', JNum 20)])]),
         (str ''6'', JObj [(str ''class_type'', JStr (str ''CLIPTextEncode'')),
                           (str ''inputs'', JObj [(str ''text'', JArr [JStr (str ''a'')])])])])])"
    by (simp add: inject_eval inputs1_def)
  from a b show ?thesis by (rule conjI)
qed

theorem template_not_mutated_witness:
  "contents 4 heap1 workflow1 = Some template1
   \<and> snd (snd (injectWorkflowParametersH heap1 workflow1 (str ''fashion-sketch'')
                   (Some inputs1))) = Inr (HRef 11)
   \<and> length heap1 \<le> 11
   \<and> contents 4 (fst (injectWorkflowParametersH heap1 workflow1 (str ''fashion-sketch'')
                        (Some inputs1))) workflow1 = Some template1
   \<and> take (length heap1) (fst (injectWorkflowParametersH heap1 workflow1
                                    (str ''fashion-sketch'') (Some inputs1))) = heap1"
proof -
  have r: "snd (snd (injectWorkflowParametersH heap1 workflow1 (str ''fashion-sketch'')
                   (Some inputs1))) = Inr (HRef 11)"
    by (simp add: heap_run1)
  show ?thesis
    using template_not_mutated [of heap1 workflow1 "str ''fashion-sketch''" "Some inputs1" 4]
      template1_contents r
    by simp
qed

end
